theory Spec2Isabelle
  imports Complex_Main
begin

section \<open>Numbers with a not-a-number sentinel\<close>

text \<open>
  The entries of the numpy arrays of \<^verbatim>\<open>Model\<close>: a real number or the sentinel
  \<^verbatim>\<open>np.nan\<close>. Rounding and infinities of IEEE doubles are not modelled; what is modelled
  is that the sentinel is absorbing for \<open>+\<close> and \<open>*\<close>, which is all the code relies on.
\<close>

datatype fl = NaN | Fin real

fun fmul :: "fl \<Rightarrow> fl \<Rightarrow> fl" where
  "fmul (Fin x) (Fin y) = Fin (x * y)"
| "fmul _ _ = NaN"

fun fadd :: "fl \<Rightarrow> fl \<Rightarrow> fl" where
  "fadd (Fin x) (Fin y) = Fin (x + y)"
| "fadd _ _ = NaN"

fun isnan :: "fl \<Rightarrow> bool" where
  "isnan NaN = True"
| "isnan (Fin x) = False"

section \<open>Errors\<close>

text \<open>
  The exceptions the modelled code can raise: the three configuration errors of
  \<^verbatim>\<open>pyhf.exceptions\<close>, TensorFlow's \<^verbatim>\<open>InvalidArgumentError\<close>, and the built-in Python
  exceptions raised by failed assertions, dictionary lookups, numpy shape checks and
  attribute lookups.
\<close>

datatype error =
    InvalidModel
  | InvalidModifier
  | InvalidNameReuse
  | InvalidArgumentError
  | AssertionError
  | KeyError
  | ValueError
  | IndexError
  | TypeError
  | AttributeError
  | UnboundLocalError

section \<open>The specification and the modifier interface\<close>

text \<open>
  A specification is a list of channels, each a list of samples, each sample carrying its
  nominal per-bin data and a list of modifier definitions \<^verbatim>\<open>{name, type, data}\<close>. The
  modifier-specific \<^verbatim>\<open>data\<close> entry is opaque to the code modelled here: type \<open>'d\<close>.
\<close>

record 'd modifier_def =
  md_name :: string
  md_type :: string
  md_data :: 'd

record 'd sample =
  s_name :: string
  s_data :: "real list"
  s_modifiers :: "'d modifier_def list"

record 'd channel =
  c_name :: string
  c_samples :: "'d sample list"

type_synonym 'd spec = "'d channel list"

text \<open>
  Modelled from the spec: the modifier classes (module \<^verbatim>\<open>pyhf.modifiers\<close> and its
  \<^verbatim>\<open>registry\<close>) are not among the sources. A modifier instance is modelled by the
  attributes the code reads: the name of its class (\<^verbatim>\<open>type(modifier).__name__\<close>),
  \<^verbatim>\<open>n_parameters\<close>, \<^verbatim>\<open>is_constrained\<close>, \<^verbatim>\<open>suggested_init\<close>, \<^verbatim>\<open>suggested_bounds\<close> and
  \<^verbatim>\<open>auxdata\<close>, which the configuration reads, and \<^verbatim>\<open>pdf_type\<close>, \<^verbatim>\<open>alphas\<close>,
  \<^verbatim>\<open>uncertainties\<close> and \<^verbatim>\<open>nominal_counts\<close>, which the constraint term reads and which
  only some classes have: an attribute the class does not have is \<open>None\<close>, and reading it
  raises \<^verbatim>\<open>AttributeError\<close>. The effect of \<^verbatim>\<open>add_sample\<close> on the instance is modelled as
  recording the (channel, sample) names it was called with. A modifier class is its
  \<^verbatim>\<open>__name__\<close>, its \<^verbatim>\<open>is_shared\<close> flag and its constructor, which receives the sample's
  data and the definition's data.
\<close>

record modifier =
  type_name :: string
  n_parameters :: nat
  is_constrained :: bool
  m_suggested_init :: "real list"
  m_suggested_bounds :: "(real \<times> real) list"
  m_auxdata :: "real list"
  added_samples :: "(string \<times> string) list"
  pdf_type :: "string option"
  alphas :: "(real list \<Rightarrow> fl list) option"
  uncertainties :: "fl list list option"
  nominal_counts :: "fl list list option"

record 'd modifier_cls =
  cls_name :: string
  is_shared :: bool
  cls_new :: "real list \<Rightarrow> 'd \<Rightarrow> modifier"

type_synonym 'd registry = "string \<rightharpoonup> 'd modifier_cls"

definition new_modifier :: "'d modifier_cls \<Rightarrow> real list \<Rightarrow> 'd \<Rightarrow> modifier" where
  "new_modifier cls nom_data mod_data =
     (cls_new cls nom_data mod_data)\<lparr>type_name := cls_name cls, added_samples := []\<rparr>"

definition add_sample :: "modifier \<Rightarrow> 'd channel \<Rightarrow> 'd sample \<Rightarrow> 'd modifier_def \<Rightarrow> modifier" where
  "add_sample m channel sample modifier_def =
     m\<lparr>added_samples := added_samples m @ [(c_name channel, s_name sample)]\<rparr>"

section \<open>The parameter configuration\<close>

text \<open>
  \<^verbatim>\<open>_ModelConfig\<close>. Python slices \<^verbatim>\<open>slice(start, stop)\<close> are pairs. Modifier instances
  are objects that are mutated (by \<^verbatim>\<open>add_sample\<close>) through references held both by
  \<^verbatim>\<open>par_map\<close> and by the caller, so the model keeps them in an explicit store
  \<open>objects\<close>: a reference is an index into it, and a new instance is appended.
\<close>

type_synonym slice = "nat \<times> nat"
type_synonym ref = nat

record config =
  poi_index :: "nat option"
  par_map :: "string \<rightharpoonup> (slice \<times> ref)"
  par_order :: "string list"
  auxdata :: "real list"
  auxdata_order :: "string list"
  next_index :: nat
  channels :: "string set"
  samples :: "string set"
  modifiers :: "string set"
  objects :: "modifier list"

definition init_config :: config where
  "init_config =
     \<lparr>poi_index = None, par_map = Map.empty, par_order = [], auxdata = [],
      auxdata_order = [], next_index = 0, channels = {}, samples = {}, modifiers = {},
      objects = []\<rparr>"

definition par_slice :: "config \<Rightarrow> string \<Rightarrow> error + slice" where
  "par_slice self name =
     (case par_map self name of None \<Rightarrow> Inl KeyError | Some (sl, r) \<Rightarrow> Inr sl)"

definition modifier_ref :: "config \<Rightarrow> string \<Rightarrow> error + ref" where
  "modifier_ref self name =
     (case par_map self name of None \<Rightarrow> Inl KeyError | Some (sl, r) \<Rightarrow> Inr r)"

fun suggested_init_loop :: "config \<Rightarrow> string list \<Rightarrow> real list \<Rightarrow> error + real list" where
  "suggested_init_loop self [] init = Inr init"
| "suggested_init_loop self (name # names) init =
     (case modifier_ref self name of
        Inl e \<Rightarrow> Inl e
      | Inr r \<Rightarrow> suggested_init_loop self names (init @ m_suggested_init (objects self ! r)))"

definition suggested_init :: "config \<Rightarrow> error + real list" where
  "suggested_init self = suggested_init_loop self (par_order self) []"

fun suggested_bounds_loop ::
  "config \<Rightarrow> string list \<Rightarrow> (real \<times> real) list \<Rightarrow> error + (real \<times> real) list" where
  "suggested_bounds_loop self [] bounds = Inr bounds"
| "suggested_bounds_loop self (name # names) bounds =
     (case modifier_ref self name of
        Inl e \<Rightarrow> Inl e
      | Inr r \<Rightarrow>
          suggested_bounds_loop self names (bounds @ m_suggested_bounds (objects self ! r)))"

definition suggested_bounds :: "config \<Rightarrow> error + (real \<times> real) list" where
  "suggested_bounds self = suggested_bounds_loop self (par_order self) []"

definition set_poi :: "config \<Rightarrow> string \<Rightarrow> error + config" where
  "set_poi self name =
     (if name \<notin> modifiers self then Inl InvalidModel
      else case par_slice self name of
             Inl e \<Rightarrow> Inl e
           | Inr (start, stop) \<Rightarrow>
               if int stop - int start \<noteq> 1 then Inl AssertionError
               else Inr (self\<lparr>poi_index := Some start\<rparr>))"

definition add_or_get_modifier ::
  "'d registry \<Rightarrow> config \<Rightarrow> 'd channel \<Rightarrow> 'd sample \<Rightarrow> 'd modifier_def \<Rightarrow> error + (config \<times> ref)" where
  "add_or_get_modifier registry self channel sample modifier_def =
     (case registry (md_type modifier_def) of
        None \<Rightarrow> Inl InvalidModifier
      | Some modifier_cls \<Rightarrow>
          if is_shared modifier_cls \<and> par_map self (md_name modifier_def) \<noteq> None
          then (case par_map self (md_name modifier_def) of
                  None \<Rightarrow> Inl KeyError
                | Some (sl, r) \<Rightarrow>
                    if \<not> (type_name (objects self ! r) = md_type modifier_def)
                    then Inl InvalidNameReuse
                    else Inr (self, r))
          else let modifier = new_modifier modifier_cls (s_data sample) (md_data modifier_def);
                   npars = n_parameters modifier;
                   r = length (objects self);
                   sl = (next_index self, next_index self + npars);
                   self1 = self\<lparr>objects := objects self @ [modifier],
                                 next_index := next_index self + npars,
                                 par_order := par_order self @ [md_name modifier_def],
                                 par_map := (par_map self)(md_name modifier_def \<mapsto> (sl, r))\<rparr>;
                   self2 = (if is_constrained modifier
                            then self1\<lparr>auxdata := auxdata self1 @ m_auxdata modifier,
                                       auxdata_order :=
                                         auxdata_order self1 @ [md_name modifier_def]\<rparr>
                            else self1)
               in Inr (self2, r))"

text \<open>
  The state of the three nested loops of \<^verbatim>\<open>from_spec\<close>: the instance under
  construction, the three name lists, and \<^verbatim>\<open>poiname\<close>, which the loop rewrites when
  names are qualified.
\<close>

record walk =
  w_instance :: config
  w_channels :: "string list"
  w_samples :: "string list"
  w_modifiers :: "string list"
  w_poiname :: string

definition qualified_name :: "'d modifier_def \<Rightarrow> string" where
  "qualified_name modifier_def = md_type modifier_def @ ''/'' @ md_name modifier_def"

fun walk_modifiers ::
  "'d registry \<Rightarrow> bool \<Rightarrow> 'd channel \<Rightarrow> 'd sample \<Rightarrow> 'd modifier_def list \<Rightarrow> walk \<Rightarrow> error + walk" where
  "walk_modifiers registry qualify_names channel sample [] w = Inr w"
| "walk_modifiers registry qualify_names channel sample (modifier_def # rest) w =
     (let fullname = qualified_name modifier_def;
          poiname = (if qualify_names \<and> md_name modifier_def = w_poiname w
                     then fullname else w_poiname w);
          modifier_def = (if qualify_names then modifier_def\<lparr>md_name := fullname\<rparr>
                          else modifier_def)
      in case add_or_get_modifier registry (w_instance w) channel sample modifier_def of
           Inl e \<Rightarrow> Inl e
         | Inr (instance, r) \<Rightarrow>
             walk_modifiers registry qualify_names channel sample rest
               (w\<lparr>w_instance :=
                     instance\<lparr>objects :=
                       (objects instance)
                         [r := add_sample (objects instance ! r) channel sample modifier_def]\<rparr>,
                   w_modifiers := w_modifiers w @ [md_name modifier_def],
                   w_poiname := poiname\<rparr>))"

fun walk_samples ::
  "'d registry \<Rightarrow> bool \<Rightarrow> 'd channel \<Rightarrow> 'd sample list \<Rightarrow> walk \<Rightarrow> error + walk" where
  "walk_samples registry qualify_names channel [] w = Inr w"
| "walk_samples registry qualify_names channel (sample # rest) w =
     (case walk_modifiers registry qualify_names channel sample (s_modifiers sample)
             (w\<lparr>w_samples := w_samples w @ [s_name sample]\<rparr>) of
        Inl e \<Rightarrow> Inl e
      | Inr w' \<Rightarrow> walk_samples registry qualify_names channel rest w')"

fun walk_channels :: "'d registry \<Rightarrow> bool \<Rightarrow> 'd channel list \<Rightarrow> walk \<Rightarrow> error + walk" where
  "walk_channels registry qualify_names [] w = Inr w"
| "walk_channels registry qualify_names (channel # rest) w =
     (case walk_samples registry qualify_names channel (c_samples channel)
             (w\<lparr>w_channels := w_channels w @ [c_name channel]\<rparr>) of
        Inl e \<Rightarrow> Inl e
      | Inr w' \<Rightarrow> walk_channels registry qualify_names rest w')"

definition init_walk :: "string \<Rightarrow> walk" where
  "init_walk poiname =
     \<lparr>w_instance = init_config, w_channels = [], w_samples = [], w_modifiers = [],
      w_poiname = poiname\<rparr>"

definition finish_walk :: "walk \<Rightarrow> config" where
  "finish_walk w =
     (w_instance w)\<lparr>channels := set (w_channels w), samples := set (w_samples w),
                     modifiers := set (w_modifiers w)\<rparr>"

definition from_spec :: "'d registry \<Rightarrow> 'd spec \<Rightarrow> string \<Rightarrow> bool \<Rightarrow> error + config" where
  "from_spec registry spec poiname qualify_names =
     (case walk_channels registry qualify_names spec (init_walk poiname) of
        Inl e \<Rightarrow> Inl e
      | Inr w \<Rightarrow> set_poi (finish_walk w) (w_poiname w))"

section \<open>The layout of the parameter vector\<close>

text \<open>
  The slices handed out by \<^verbatim>\<open>add_or_get_modifier\<close>: starting at \<open>a\<close>, one half-open
  range per created instance, each as wide as that instance's parameter count.
\<close>

fun alloc_slices :: "nat \<Rightarrow> nat list \<Rightarrow> slice list" where
  "alloc_slices a [] = []"
| "alloc_slices a (n # ns) = (a, a + n) # alloc_slices (a + n) ns"

text \<open>
  What \<^verbatim>\<open>par_map\<close> holds after construction: instance number \<open>i\<close> of the store was
  created for the name \<open>par_order ! i\<close> and received allocation \<open>i\<close>; a name that was
  allocated more than once maps to its last allocation (\<open>map_of\<close> of the reversed list).
\<close>

definition layout :: "config \<Rightarrow> (string \<times> (slice \<times> ref)) list" where
  "layout self =
     zip (par_order self)
       (zip (alloc_slices 0 (map n_parameters (objects self))) [0..<length (objects self)])"

definition alloc_inv :: "config \<Rightarrow> bool" where
  "alloc_inv self \<longleftrightarrow>
     length (par_order self) = length (objects self) \<and>
     next_index self = sum_list (map n_parameters (objects self)) \<and>
     par_map self = map_of (rev (layout self))"

definition aux_inv :: "config \<Rightarrow> bool" where
  "aux_inv self \<longleftrightarrow>
     auxdata self =
       concat (map (\<lambda>m. if is_constrained m then m_auxdata m else []) (objects self))"

definition cfg_inv :: "config \<Rightarrow> bool" where
  "cfg_inv self \<longleftrightarrow> alloc_inv self \<and> aux_inv self"

text \<open>
  The index set of a half-open slice, and a list of slices that tiles the range from
  \<open>a\<close> to \<open>b\<close>: each slice starts where the previous one ended.
\<close>

definition slice_range :: "slice \<Rightarrow> nat set" where
  "slice_range sl = {fst sl..<snd sl}"

fun contiguous :: "nat \<Rightarrow> slice list \<Rightarrow> nat \<Rightarrow> bool" where
  "contiguous a [] b \<longleftrightarrow> a = b"
| "contiguous a (sl # sls) b \<longleftrightarrow> fst sl = a \<and> fst sl \<le> snd sl \<and> contiguous (snd sl) sls b"

text \<open>
  The modifier names a specification declares, in the order in which \<^verbatim>\<open>from_spec\<close>
  walks them.
\<close>

definition declared_names :: "'d spec \<Rightarrow> string list" where
  "declared_names spec =
     concat (map (\<lambda>c. concat (map (\<lambda>s. map md_name (s_modifiers s)) (c_samples c))) spec)"

section \<open>A registry and specifications for evaluation\<close>

text \<open>
  Modelled from the spec: the registry of modifier classes is not among the sources, so
  the model takes it as a parameter. The instance below is used to evaluate the model at
  concrete inputs. It holds three of the modifier kinds the spec names: \<^verbatim>\<open>normfactor\<close>
  (shared, unconstrained, one parameter), \<^verbatim>\<open>normsys\<close> (shared, constrained by a normal
  density, one parameter) and \<^verbatim>\<open>shapesys\<close> (not shared, constrained by a Poisson
  density, one parameter per bin of the sample).
\<close>

definition normfactor_cls :: "real list modifier_cls" where
  "normfactor_cls =
     \<lparr>cls_name = ''normfactor'', is_shared = True,
      cls_new = (\<lambda>nom_data mod_data.
        \<lparr>type_name = ''normfactor'', n_parameters = 1, is_constrained = False,
         m_suggested_init = [1], m_suggested_bounds = [(0, 10)], m_auxdata = [],
         added_samples = [], pdf_type = None, alphas = None, uncertainties = None,
         nominal_counts = None\<rparr>)\<rparr>"

definition normsys_cls :: "real list modifier_cls" where
  "normsys_cls =
     \<lparr>cls_name = ''normsys'', is_shared = True,
      cls_new = (\<lambda>nom_data mod_data.
        \<lparr>type_name = ''normsys'', n_parameters = 1, is_constrained = True,
         m_suggested_init = [0], m_suggested_bounds = [(-5, 5)], m_auxdata = [0],
         added_samples = [], pdf_type = Some ''normal'', alphas = Some (map Fin),
         uncertainties = None, nominal_counts = None\<rparr>)\<rparr>"

definition shapesys_cls :: "real list modifier_cls" where
  "shapesys_cls =
     \<lparr>cls_name = ''shapesys'', is_shared = False,
      cls_new = (\<lambda>nom_data mod_data.
        \<lparr>type_name = ''shapesys'', n_parameters = length nom_data, is_constrained = True,
         m_suggested_init = replicate (length nom_data) 1,
         m_suggested_bounds = replicate (length nom_data) (0, 10),
         m_auxdata = map2 (\<lambda>b u. (b / u)\<^sup>2) nom_data mod_data,
         added_samples = [], pdf_type = Some ''poisson'',
         alphas = Some (\<lambda>pars. map2 (\<lambda>p a. Fin (p * a)) pars
                          (map2 (\<lambda>b u. (b / u)\<^sup>2) nom_data mod_data)),
         uncertainties = None, nominal_counts = None\<rparr>)\<rparr>"

definition example_registry :: "real list registry" where
  "example_registry =
     [''normfactor'' \<mapsto> normfactor_cls, ''normsys'' \<mapsto> normsys_cls,
      ''shapesys'' \<mapsto> shapesys_cls]"

definition mu_def :: "real list modifier_def" where
  "mu_def = \<lparr>md_name = ''mu'', md_type = ''normfactor'', md_data = []\<rparr>"

text \<open>
  The one-channel, two-bin model of the test fixture (\<^verbatim>\<open>hepdata_like\<close> with signal
  \<open>[12, 11]\<close>, background \<open>[50, 52]\<close> and background uncertainties \<open>[3, 7]\<close>).
\<close>

definition hepdata_like :: "real list spec" where
  "hepdata_like =
     [\<lparr>c_name = ''singlechannel'', c_samples =
        [\<lparr>s_name = ''signal'', s_data = [12, 11], s_modifiers = [mu_def]\<rparr>,
         \<lparr>s_name = ''background'', s_data = [50, 52], s_modifiers =
            [\<lparr>md_name = ''uncorr_bkguncrt'', md_type = ''shapesys'', md_data = [3, 7]\<rparr>]\<rparr>]\<rparr>]"

text \<open>
  Two channels with different numbers of bins whose background samples both declare a
  \<^verbatim>\<open>shapesys\<close> modifier under the same name.
\<close>

definition two_channel_reuse :: "real list spec" where
  "two_channel_reuse =
     [\<lparr>c_name = ''A'', c_samples =
        [\<lparr>s_name = ''signal'', s_data = [12, 11], s_modifiers = [mu_def]\<rparr>,
         \<lparr>s_name = ''background'', s_data = [50, 52], s_modifiers =
            [\<lparr>md_name = ''unc'', md_type = ''shapesys'', md_data = [3, 7]\<rparr>]\<rparr>]\<rparr>,
      \<lparr>c_name = ''B'', c_samples =
        [\<lparr>s_name = ''background'', s_data = [50, 52, 30], s_modifiers =
            [\<lparr>md_name = ''unc'', md_type = ''shapesys'', md_data = [3, 7, 2]\<rparr>]\<rparr>]\<rparr>]"

text \<open>
  Specifications that declare a name more than once: a shared name with the same type,
  a shared name with another shared type, and a name taken again by a type whose class
  is not shared. The last one declares no parameter of interest named \<^verbatim>\<open>mu\<close>.
\<close>

definition shared_twice :: "real list spec" where
  "shared_twice =
     [\<lparr>c_name = ''A'', c_samples =
        [\<lparr>s_name = ''signal'', s_data = [12, 11], s_modifiers = [mu_def]\<rparr>,
         \<lparr>s_name = ''background'', s_data = [50, 52], s_modifiers = [mu_def]\<rparr>]\<rparr>]"

definition shared_other_type :: "real list spec" where
  "shared_other_type =
     [\<lparr>c_name = ''A'', c_samples =
        [\<lparr>s_name = ''signal'', s_data = [12, 11], s_modifiers = [mu_def]\<rparr>,
         \<lparr>s_name = ''background'', s_data = [50, 52], s_modifiers =
            [\<lparr>md_name = ''mu'', md_type = ''normsys'', md_data = []\<rparr>]\<rparr>]\<rparr>]"

definition name_reuse_other_type :: "real list spec" where
  "name_reuse_other_type =
     [\<lparr>c_name = ''A'', c_samples =
        [\<lparr>s_name = ''signal'', s_data = [12, 11], s_modifiers =
            [mu_def, \<lparr>md_name = ''x'', md_type = ''normsys'', md_data = []\<rparr>]\<rparr>,
         \<lparr>s_name = ''background'', s_data = [50, 52], s_modifiers =
            [\<lparr>md_name = ''x'', md_type = ''shapesys'', md_data = [3, 7]\<rparr>]\<rparr>]\<rparr>]"

text \<open>
  The same clash declared in the other order: the name is first taken by the
  \<^verbatim>\<open>shapesys\<close> modifier and then declared again with the shared type \<^verbatim>\<open>normsys\<close>.
\<close>

definition name_reuse_reverse :: "real list spec" where
  "name_reuse_reverse =
     [\<lparr>c_name = ''A'', c_samples =
        [\<lparr>s_name = ''signal'', s_data = [12, 11], s_modifiers =
            [mu_def, \<lparr>md_name = ''x'', md_type = ''shapesys'', md_data = [3, 7]\<rparr>]\<rparr>,
         \<lparr>s_name = ''background'', s_data = [50, 52], s_modifiers =
            [\<lparr>md_name = ''x'', md_type = ''normsys'', md_data = []\<rparr>]\<rparr>]\<rparr>]"

definition no_poi :: "real list spec" where
  "no_poi =
     [\<lparr>c_name = ''A'', c_samples =
        [\<lparr>s_name = ''background'', s_data = [50, 52], s_modifiers =
            [\<lparr>md_name = ''unc'', md_type = ''shapesys'', md_data = [3, 7]\<rparr>]\<rparr>]\<rparr>]"

section \<open>The tensor backend\<close>

text \<open>
  Modelled from the spec: the tensor backend (\<^verbatim>\<open>get_backend()\<close>) is not among the
  sources, so its operations are a parameter of the model. A one-dimensional tensor is a
  list and a two-dimensional tensor a list of rows. The operations that combine two
  tensors, reduce along an axis or build a tensor from nested sequences can raise.

  \<^item> \<open>tl_poisson n lam\<close> is \<^verbatim>\<open>tensorlib.poisson(n, lam)\<close> on one-dimensional tensors;
  \<^item> \<open>tl_log\<close> and \<open>tl_sqrt\<close> act on a one-dimensional tensor and \<open>tl_sum\<close> is the sum of
    its entries; on a two-dimensional tensor the logarithm is taken row by row and the
    sum is the sum of all entries;
  \<^item> \<open>tl_call k c\<close> stands for the two statements \<^verbatim>\<open>c = tensorlib.astensor(c)\<close> and
    \<^verbatim>\<open>getattr(tensorlib,k)(c[:,0],c[:,1],c[:,2])\<close> of \<^verbatim>\<open>__calculate_constraint\<close>: the
    list \<open>c\<close> of call arguments, each a triple of the auxiliary data, the
    \<^verbatim>\<open>alphas\<close> and the width of one modifier (the empty list when there is none), is
    turned into a tensor, and the backend's function named \<open>k\<close> is called with its three
    columns. It raises when the rows do not form a tensor, when the backend has no
    function of that name, and when that function does not take three arguments;
  \<^item> \<open>tl_concatenate\<close> joins two two-dimensional tensors along their first axis;
  \<^item> \<open>tl_power\<close>, \<open>tl_sum_axis0\<close> and \<open>tl_divide\<close> are \<^verbatim>\<open>power\<close>, \<^verbatim>\<open>sum(..., axis=0)\<close> and
    \<^verbatim>\<open>divide\<close>, which \<^verbatim>\<open>finalize_stats\<close> calls.
\<close>

type_synonym callargs = "real list \<times> fl list \<times> fl list"

record tensorlib =
  tl_poisson :: "real list \<Rightarrow> fl list \<Rightarrow> error + fl list"
  tl_log :: "fl list \<Rightarrow> fl list"
  tl_sum :: "fl list \<Rightarrow> fl"
  tl_call :: "string \<Rightarrow> callargs list \<Rightarrow> error + fl list list"
  tl_concatenate :: "fl list list \<Rightarrow> fl list list \<Rightarrow> error + fl list list"
  tl_power :: "fl list list \<Rightarrow> nat \<Rightarrow> fl list list"
  tl_sum_axis0 :: "fl list list \<Rightarrow> error + fl list"
  tl_sqrt :: "fl list \<Rightarrow> fl list"
  tl_divide :: "fl list \<Rightarrow> fl list \<Rightarrow> error + fl list"

section \<open>Arrays\<close>

text \<open>\<^verbatim>\<open>np.sum\<close> and \<^verbatim>\<open>np.product\<close> of a one-dimensional array.\<close>

definition np_sum :: "fl list \<Rightarrow> fl" where
  "np_sum xs = foldr fadd xs (Fin 0)"

definition np_product :: "fl list \<Rightarrow> fl" where
  "np_product xs = foldr fmul xs (Fin 1)"

type_synonym field = "fl list list list"

definition full :: "nat \<Rightarrow> nat \<Rightarrow> nat \<Rightarrow> fl \<Rightarrow> field" where
  "full nchan maxsamp maxbins v = replicate nchan (replicate maxsamp (replicate maxbins v))"

definition field_mul :: "field \<Rightarrow> field \<Rightarrow> field" where
  "field_mul = map2 (map2 (map2 fmul))"

definition field_add :: "field \<Rightarrow> field \<Rightarrow> field" where
  "field_add = map2 (map2 (map2 fadd))"

section \<open>The model: nominal cube and modifier index\<close>

text \<open>Python's \<^verbatim>\<open>max\<close> of a sequence raises \<^verbatim>\<open>ValueError\<close> when the sequence is empty.\<close>

definition py_max :: "nat list \<Rightarrow> error + nat" where
  "py_max xs = (if xs = [] then Inl ValueError else Inr (fold max xs 0))"

text \<open>
  The assignment \<^verbatim>\<open>cube[i,j,:] = s['data']\<close> writes into a row of \<open>maxbins\<close>
  entries. numpy accepts a value of exactly that length, broadcasts a value of length 1
  over the row, and raises \<^verbatim>\<open>ValueError\<close> for any other length.
\<close>

definition broadcast_row :: "nat \<Rightarrow> fl list \<Rightarrow> error + fl list" where
  "broadcast_row maxbins v =
     (if length v = maxbins then Inr v
      else if length v = 1 then Inr (replicate maxbins (hd v))
      else Inl ValueError)"

fun fill_samples :: "nat \<Rightarrow> nat \<Rightarrow> nat \<Rightarrow> 'd sample list \<Rightarrow> field \<Rightarrow> error + field" where
  "fill_samples maxbins i j [] cube = Inr cube"
| "fill_samples maxbins i j (s # rest) cube =
     (case broadcast_row maxbins (map Fin (s_data s)) of
        Inl e \<Rightarrow> Inl e
      | Inr row \<Rightarrow> fill_samples maxbins i (Suc j) rest
                     (list_update cube i (list_update (cube ! i) j row)))"

fun fill_channels :: "nat \<Rightarrow> nat \<Rightarrow> 'd channel list \<Rightarrow> field \<Rightarrow> error + field" where
  "fill_channels maxbins i [] cube = Inr cube"
| "fill_channels maxbins i (c # rest) cube =
     (case fill_samples maxbins i 0 (c_samples c) cube of
        Inl e \<Rightarrow> Inl e
      | Inr cube' \<Rightarrow> fill_channels maxbins (Suc i) rest cube')"

text \<open>
  \<^verbatim>\<open>_make_cube\<close>. The second component of its result, the map from channel and sample
  names to cube indices, is read by no code modelled here and is left out.
\<close>

definition make_cube :: "'d spec \<Rightarrow> error + field" where
  "make_cube spec =
     (let nchan = length spec in
      case py_max (map (\<lambda>c. length (c_samples c)) spec) of
        Inl e \<Rightarrow> Inl e
      | Inr maxsamp \<Rightarrow>
          (case py_max (concat (map (\<lambda>c. map (\<lambda>s. length (s_data s)) (c_samples c)) spec)) of
             Inl e \<Rightarrow> Inl e
           | Inr maxbins \<Rightarrow> fill_channels maxbins 0 spec (full nchan maxsamp maxbins NaN)))"

text \<open>
  \<^verbatim>\<open>_make_mod_index\<close>. The dictionary \<^verbatim>\<open>allmods\<close> keeps insertion order and
  \<^verbatim>\<open>setdefault\<close> keeps the first entry of a name, so it is an association list that is
  extended only by new names. The local variable \<^verbatim>\<open>opcode_id\<close> is assigned only for the
  known types: for another type it keeps the value of the previous iteration, and is
  unbound when there was none.
\<close>

definition factor_mods :: "string list" where
  "factor_mods = [''normfactor'', ''normsys'', ''shapesys'', ''shapefactor'', ''staterror'']"

definition delta_mods :: "string list" where
  "delta_mods = [''histosys'']"

type_synonym allmods = "(string \<times> (string \<times> nat \<times> nat)) list"

fun mod_index_modifiers ::
  "'d modifier_def list \<Rightarrow> (string \<times> (string \<times> nat)) list \<times> nat option \<Rightarrow>
     error + (string \<times> (string \<times> nat)) list \<times> nat option" where
  "mod_index_modifiers [] st = Inr st"
| "mod_index_modifiers (m # rest) (allmods, opcode_id) =
     (let mname = md_name m; mtype = md_type m;
          opcode_id = (if mtype \<in> set factor_mods then Some 0
                       else if mtype \<in> set delta_mods then Some 1
                       else opcode_id)
      in case opcode_id of
           None \<Rightarrow> Inl UnboundLocalError
         | Some opc \<Rightarrow>
             mod_index_modifiers rest
               (if mname \<in> fst ` set allmods then allmods else allmods @ [(mname, (mtype, opc))],
                opcode_id))"

fun mod_index_samples ::
  "'d sample list \<Rightarrow> (string \<times> (string \<times> nat)) list \<times> nat option \<Rightarrow>
     error + (string \<times> (string \<times> nat)) list \<times> nat option" where
  "mod_index_samples [] st = Inr st"
| "mod_index_samples (s # rest) st =
     (case mod_index_modifiers (s_modifiers s) st of
        Inl e \<Rightarrow> Inl e
      | Inr st' \<Rightarrow> mod_index_samples rest st')"

fun mod_index_channels ::
  "'d channel list \<Rightarrow> (string \<times> (string \<times> nat)) list \<times> nat option \<Rightarrow>
     error + (string \<times> (string \<times> nat)) list \<times> nat option" where
  "mod_index_channels [] st = Inr st"
| "mod_index_channels (c # rest) st =
     (case mod_index_samples (c_samples c) st of
        Inl e \<Rightarrow> Inl e
      | Inr st' \<Rightarrow> mod_index_channels rest st')"

definition make_mod_index :: "'d spec \<Rightarrow> error + allmods" where
  "make_mod_index spec =
     (case mod_index_channels spec ([], None) of
        Inl e \<Rightarrow> Inl e
      | Inr (allmods, opcode_id) \<Rightarrow>
          Inr (map (\<lambda>(mod_id, (mname, (mtype, opc))). (mname, (mtype, opc, mod_id)))
                 (enumerate 0 allmods)))"

text \<open>
  \<^verbatim>\<open>Model.__init__\<close>. The constructor works on a copy of the specification in which
  \<^verbatim>\<open>from_spec\<close> has rewritten the modifier names when names are qualified. Schema
  validation is an external collaborator and is taken to pass. The backend, which the
  code takes from \<^verbatim>\<open>get_backend()\<close>, is an argument. The combiner objects are a parameter
  of the functions that use them.
\<close>

definition qualify_spec :: "bool \<Rightarrow> 'd spec \<Rightarrow> 'd spec" where
  "qualify_spec qualify_names spec =
     (if qualify_names
      then map (\<lambda>c. c\<lparr>c_samples :=
             map (\<lambda>s. s\<lparr>s_modifiers :=
                    map (\<lambda>m. m\<lparr>md_name := qualified_name m\<rparr>) (s_modifiers s)\<rparr>)
               (c_samples c)\<rparr>) spec
      else spec)"

text \<open>
  \<^verbatim>\<open>finalize_stats\<close>, which reads two attributes that only the modifiers of the class
  \<^verbatim>\<open>staterror\<close> have.
\<close>

definition finalize_stats :: "tensorlib \<Rightarrow> modifier \<Rightarrow> error + fl list" where
  "finalize_stats tensorlib modifier =
     (case uncertainties modifier of
        None \<Rightarrow> Inl AttributeError
      | Some unc \<Rightarrow>
          (case tl_sum_axis0 tensorlib (tl_power tensorlib unc 2) of
             Inl e \<Rightarrow> Inl e
           | Inr squares \<Rightarrow>
               let inquad = tl_sqrt tensorlib squares in
               (case nominal_counts modifier of
                  None \<Rightarrow> Inl AttributeError
                | Some counts \<Rightarrow>
                    (case tl_sum_axis0 tensorlib counts of
                       Inl e \<Rightarrow> Inl e
                     | Inr totals \<Rightarrow> tl_divide tensorlib inquad totals))))"

text \<open>
  The dictionary comprehension that fills \<^verbatim>\<open>finalized_stats\<close> in \<^verbatim>\<open>Model.__init__\<close>. It
  visits the keys of \<^verbatim>\<open>par_map\<close> in the order of their insertion, which is the order
  of the first occurrences of the names in \<open>par_order\<close> (every insertion into
  \<^verbatim>\<open>par_map\<close> goes with an append to \<^verbatim>\<open>par_order\<close>), and selects the keys that contain
  the string \<^verbatim>\<open>staterror\<close>, whatever the class of their modifier is.
\<close>

fun py_in :: "string \<Rightarrow> string \<Rightarrow> bool" where
  "py_in sub [] = (sub = [])"
| "py_in sub (c # cs) = (take (length sub) (c # cs) = sub \<or> py_in sub cs)"

definition par_map_keys :: "config \<Rightarrow> string list" where
  "par_map_keys self = rev (remdups (rev (par_order self)))"

fun finalized_stats_loop ::
  "tensorlib \<Rightarrow> config \<Rightarrow> string list \<Rightarrow> (string \<rightharpoonup> fl list) \<Rightarrow>
     error + (string \<rightharpoonup> fl list)" where
  "finalized_stats_loop tensorlib self [] stats = Inr stats"
| "finalized_stats_loop tensorlib self (k # ks) stats =
     (if py_in ''staterror'' k
      then (case modifier_ref self k of
              Inl e \<Rightarrow> Inl e
            | Inr r \<Rightarrow>
                (case finalize_stats tensorlib (objects self ! r) of
                   Inl e \<Rightarrow> Inl e
                 | Inr s \<Rightarrow> finalized_stats_loop tensorlib self ks (stats(k \<mapsto> s))))
      else finalized_stats_loop tensorlib self ks stats)"

definition finalized_stats :: "tensorlib \<Rightarrow> config \<Rightarrow> error + (string \<rightharpoonup> fl list)" where
  "finalized_stats tensorlib self =
     finalized_stats_loop tensorlib self (par_map_keys self) Map.empty"

record 'd model =
  m_spec :: "'d spec"
  m_config :: config
  m_cube :: field
  m_finalized_stats :: "string \<rightharpoonup> fl list"
  m_allmods :: allmods

definition Model ::
  "tensorlib \<Rightarrow> 'd registry \<Rightarrow> 'd spec \<Rightarrow> string \<Rightarrow> bool \<Rightarrow> error + 'd model" where
  "Model tensorlib registry spec poiname qualify_names =
     (case from_spec registry spec poiname qualify_names of
        Inl e \<Rightarrow> Inl e
      | Inr cfg \<Rightarrow>
          let spec' = qualify_spec qualify_names spec in
          (case make_cube spec' of
             Inl e \<Rightarrow> Inl e
           | Inr cube \<Rightarrow>
               (case finalized_stats tensorlib cfg of
                  Inl e \<Rightarrow> Inl e
                | Inr stats \<Rightarrow>
                    (case make_mod_index spec' of
                       Inl e \<Rightarrow> Inl e
                     | Inr allmods \<Rightarrow>
                         Inr \<lparr>m_spec = spec', m_config = cfg, m_cube = cube,
                              m_finalized_stats = stats, m_allmods = allmods\<rparr>))))"

section \<open>The model: expected data\<close>

text \<open>
  Modelled from the spec: the combiner classes (\<^verbatim>\<open>modifiers.combined\<close>) are not among
  the sources. For a modifier type and a parameter vector a combiner returns, per
  modifier name, a list of pairs of a slot index and a contribution tensor. The slot
  index addresses \<^verbatim>\<open>op_fields\<close> by (opcode, modifier ordinal, channel, sample slot), and
  the contribution is the row of per-bin values written there.
\<close>

type_synonym slot = "nat \<times> nat \<times> nat \<times> nat"
type_synonym result_index = "(slot \<times> fl list) list"
type_synonym combiners = "string \<Rightarrow> real list \<Rightarrow> (string \<rightharpoonup> result_index)"

definition combined_types :: "string list" where
  "combined_types = [''normsys'', ''histosys'']"

definition trivial_types :: "string list" where
  "trivial_types = [''normfactor'', ''shapesys'', ''shapefactor'', ''staterror'']"

text \<open>
  \<^verbatim>\<open>_make_result_index\<close>: the lookup \<^verbatim>\<open>all_results[mtype]\<close> raises \<^verbatim>\<open>KeyError\<close> for a
  type that is none of the six combined ones.
\<close>

fun result_index_loop :: "combiners \<Rightarrow> real list \<Rightarrow> allmods \<Rightarrow> result_index \<Rightarrow> error + result_index" where
  "result_index_loop combine pars [] acc = Inr acc"
| "result_index_loop combine pars ((mname, (mtype, opc, mod_id)) # rest) acc =
     (if mtype \<notin> set (combined_types @ trivial_types) then Inl KeyError
      else result_index_loop combine pars rest
             (acc @ (case combine mtype pars mname of None \<Rightarrow> [] | Some rs \<Rightarrow> rs)))"

definition make_result_index ::
  "'d model \<Rightarrow> combiners \<Rightarrow> real list \<Rightarrow> error + (nat \<times> result_index)" where
  "make_result_index self combine pars =
     (case result_index_loop combine pars (m_allmods self) [] of
        Inl e \<Rightarrow> Inl e
      | Inr result_index_list \<Rightarrow> Inr (length (m_allmods self), result_index_list))"

text \<open>
  The assignment \<^verbatim>\<open>op_fields[idx] = r\<close>: an index outside the array raises
  \<^verbatim>\<open>IndexError\<close>, and the value is written into a row of bins as above.
\<close>

type_synonym op_fields = "field list list"

definition assign_slot :: "nat \<Rightarrow> op_fields \<Rightarrow> slot \<Rightarrow> fl list \<Rightarrow> error + op_fields" where
  "assign_slot maxbins ops idx r =
     (case idx of (opc, m, c, s) \<Rightarrow>
        if \<not> (opc < length ops \<and> m < length (ops ! opc) \<and> c < length (ops ! opc ! m) \<and>
               s < length (ops ! opc ! m ! c))
        then Inl IndexError
        else (case broadcast_row maxbins r of
                Inl e \<Rightarrow> Inl e
              | Inr row \<Rightarrow>
                  Inr (list_update ops opc
                         (list_update (ops ! opc) m
                            (list_update (ops ! opc ! m) c
                               (list_update (ops ! opc ! m ! c) s row))))))"

fun assign_all :: "nat \<Rightarrow> result_index \<Rightarrow> op_fields \<Rightarrow> error + op_fields" where
  "assign_all maxbins [] ops = Inr ops"
| "assign_all maxbins ((idx, r) # rest) ops =
     (case assign_slot maxbins ops idx r of
        Inl e \<Rightarrow> Inl e
      | Inr ops' \<Rightarrow> assign_all maxbins rest ops')"

text \<open>
  The shape of the cube as numpy reports it. \<^verbatim>\<open>np.product\<close> and \<^verbatim>\<open>np.sum\<close> along
  axis 0 reduce the stack of per-modifier fields entry by entry; over an empty stack they
  give the field of ones and of zeros.
\<close>

definition shape :: "field \<Rightarrow> nat \<times> nat \<times> nat" where
  "shape cube =
     (length cube,
      (case cube of [] \<Rightarrow> 0 | plane # _ \<Rightarrow> length plane),
      (case cube of [] \<Rightarrow> 0 | plane # _ \<Rightarrow> (case plane of [] \<Rightarrow> 0 | row # _ \<Rightarrow> length row)))"

definition all_modifications ::
  "'d model \<Rightarrow> combiners \<Rightarrow> real list \<Rightarrow> error + (field \<times> field)" where
  "all_modifications self combine pars =
     (case make_result_index self combine pars of
        Inl e \<Rightarrow> Inl e
      | Inr (ntotalmods, result_index) \<Rightarrow>
          (case shape (m_cube self) of (nchan, maxsamp, maxbins) \<Rightarrow>
             let op_fields = [replicate ntotalmods (full nchan maxsamp maxbins (Fin 1)),
                              replicate ntotalmods (full nchan maxsamp maxbins (Fin 0))]
             in (case assign_all maxbins result_index op_fields of
                   Inl e \<Rightarrow> Inl e
                 | Inr op_fields \<Rightarrow>
                     let factor_field =
                           foldr field_mul (op_fields ! 0) (full nchan maxsamp maxbins (Fin 1));
                         delta_field =
                           foldr field_add (op_fields ! 1) (full nchan maxsamp maxbins (Fin 0))
                     in Inr (factor_field, delta_field))))"

definition expected_actualdata :: "'d model \<Rightarrow> combiners \<Rightarrow> real list \<Rightarrow> error + fl list" where
  "expected_actualdata self combine pars =
     (case all_modifications self combine pars of
        Inl e \<Rightarrow> Inl e
      | Inr (factor_field, delta_field) \<Rightarrow>
          let combined = field_mul factor_field (field_add delta_field (m_cube self))
          in Inr (map (\<lambda>i. np_sum (filter (\<lambda>x. \<not> isnan x) (concat (combined ! i))))
                    [0..<length (m_spec self)]))"

section \<open>Shapes, slots and the per-channel sum\<close>

text \<open>
  A field of \<open>nc\<close> channels, \<open>ns\<close> sample slots and \<open>nb\<close> bins, and the largest
  numbers of samples and of bins in a specification.
\<close>

definition has_shape :: "nat \<Rightarrow> nat \<Rightarrow> nat \<Rightarrow> field \<Rightarrow> bool" where
  "has_shape nc ns nb F \<longleftrightarrow>
     length F = nc \<and> (\<forall>p\<in>set F. length p = ns \<and> (\<forall>r\<in>set p. length r = nb))"

definition maxsamp_of :: "'d spec \<Rightarrow> nat" where
  "maxsamp_of spec = fold max (map (\<lambda>c. length (c_samples c)) spec) 0"

definition maxbins_of :: "'d spec \<Rightarrow> nat" where
  "maxbins_of spec =
     fold max (concat (map (\<lambda>c. map (\<lambda>s. length (s_data s)) (c_samples c)) spec)) 0"

text \<open>
  The array \<^verbatim>\<open>op_fields\<close>: two stacks (factors and deltas) of \<open>n\<close> fields each. A slot
  index is in range when it addresses a row of that array, and \<open>get_row\<close> reads the row.
\<close>

definition ops_shape :: "nat \<Rightarrow> nat \<Rightarrow> nat \<Rightarrow> nat \<Rightarrow> op_fields \<Rightarrow> bool" where
  "ops_shape n nc ns nb ops \<longleftrightarrow>
     length ops = 2 \<and> (\<forall>opc<2. length (ops ! opc) = n \<and>
        (\<forall>m<n. has_shape nc ns nb (ops ! opc ! m)))"

definition in_range :: "nat \<Rightarrow> nat \<Rightarrow> nat \<Rightarrow> slot \<Rightarrow> bool" where
  "in_range n nc ns idx \<longleftrightarrow> (case idx of (opc, m, c, s) \<Rightarrow> opc < 2 \<and> m < n \<and> c < nc \<and> s < ns)"

definition get_row :: "op_fields \<Rightarrow> slot \<Rightarrow> fl list" where
  "get_row ops idx = (case idx of (opc, m, c, s) \<Rightarrow> ops ! opc ! m ! c ! s)"

text \<open>
  What a combiner result contributes at bin \<open>b\<close> of a slot: the value of the last row
  written to the slot (a row of length 1 is broadcast over the bins), and the identity
  of the slot's opcode where nothing was written: 1 for factors (opcode 0), 0 for
  deltas (opcode 1). A result index is valid when every slot index is in range and every
  row fits the bins.
\<close>

definition broadcast_at :: "nat \<Rightarrow> fl list \<Rightarrow> nat \<Rightarrow> fl" where
  "broadcast_at nb r b = (if length r = nb then r ! b else hd r)"

definition contribution :: "nat \<Rightarrow> result_index \<Rightarrow> slot \<Rightarrow> nat \<Rightarrow> fl" where
  "contribution nb ri idx b =
     (case map_of (rev ri) idx of
        None \<Rightarrow> (if fst idx = 0 then Fin 1 else Fin 0)
      | Some r \<Rightarrow> broadcast_at nb r b)"

definition valid_result_index :: "nat \<Rightarrow> nat \<Rightarrow> nat \<Rightarrow> nat \<Rightarrow> result_index \<Rightarrow> bool" where
  "valid_result_index n nc ns nb ri \<longleftrightarrow>
     (\<forall>(idx, r)\<in>set ri. in_range n nc ns idx \<and> (length r = nb \<or> length r = 1))"

text \<open>
  The per-channel sum of the claim: at each (sample slot, bin) position the product of
  all factor contributions times the sum of all delta contributions plus the nominal
  cube, where a not-a-number position contributes nothing.
\<close>

fun contributes :: "fl \<Rightarrow> real" where
  "contributes NaN = 0"
| "contributes (Fin x) = x"

definition combined_at :: "field \<Rightarrow> nat \<Rightarrow> result_index \<Rightarrow> nat \<Rightarrow> nat \<Rightarrow> nat \<Rightarrow> fl" where
  "combined_at cube n ri c s b =
     (case shape cube of (nc, ns, nb) \<Rightarrow>
        fmul (np_product (map (\<lambda>m. contribution nb ri (0, m, c, s) b) [0..<n]))
             (fadd (np_sum (map (\<lambda>m. contribution nb ri (1, m, c, s) b) [0..<n]))
                   (cube ! c ! s ! b)))"

definition channel_sum :: "field \<Rightarrow> nat \<Rightarrow> result_index \<Rightarrow> nat \<Rightarrow> real" where
  "channel_sum cube n ri c =
     (case shape cube of (nc, ns, nb) \<Rightarrow>
        sum_list (map (\<lambda>s. sum_list (map (\<lambda>b. contributes (combined_at cube n ri c s b))
                                      [0..<nb])) [0..<ns]))"

text \<open>
  Validity of a result index for the cube of a model, the sum of the entries of one
  channel of the nominal cube that are numbers, and the identity parameter point: every
  factor contribution is 1 and every delta contribution is 0.
\<close>

definition valid_for :: "field \<Rightarrow> nat \<Rightarrow> result_index \<Rightarrow> bool" where
  "valid_for cube n ri =
     (case shape cube of (nc, ns, nb) \<Rightarrow> valid_result_index n nc ns nb ri)"



text \<open>
  The row that \<^verbatim>\<open>_make_cube\<close> writes for a sample when the assignment succeeds: the
  sample's data, or its single value repeated over all bins.
\<close>

definition row_of :: "nat \<Rightarrow> 'd sample \<Rightarrow> fl list" where
  "row_of nb s =
     (if length (s_data s) = nb then map Fin (s_data s)
      else replicate nb (Fin (hd (s_data s))))"

section \<open>Slices\<close>

text \<open>
  Python's slices \<^verbatim>\<open>data[:cut]\<close> and \<^verbatim>\<open>data[cut:]\<close>: a negative bound counts from the
  end of the list and is clipped at its start.
\<close>

definition slice_to :: "int \<Rightarrow> 'a list \<Rightarrow> 'a list" where
  "slice_to bound xs =
     (if bound < 0 then take (nat (int (length xs) + bound)) xs else take (nat bound) xs)"

definition slice_from :: "int \<Rightarrow> 'a list \<Rightarrow> 'a list" where
  "slice_from bound xs =
     (if bound < 0 then drop (nat (int (length xs) + bound)) xs else drop (nat bound) xs)"

text \<open>
  A slice \<^verbatim>\<open>xs[start:stop]\<close> with bounds that are not negative; it is clipped at the end
  of the list and never raises.
\<close>

definition py_slice :: "nat \<Rightarrow> nat \<Rightarrow> 'a list \<Rightarrow> 'a list" where
  "py_slice start stop xs = take (stop - start) (drop start xs)"

section \<open>The model: constraint term\<close>

text \<open>
  The dictionary \<^verbatim>\<open>bytype\<close> of \<^verbatim>\<open>constraint_logpdf\<close>, in insertion order, and the
  statement \<^verbatim>\<open>bytype.setdefault(k, []).append(v)\<close>.
\<close>

type_synonym bytype = "(string \<times> callargs list) list"

definition setdefault_append :: "string \<Rightarrow> callargs \<Rightarrow> bytype \<Rightarrow> bytype" where
  "setdefault_append k v d =
     (case map_of d k of
        None \<Rightarrow> d @ [(k, [v])]
      | Some vs \<Rightarrow> map (\<lambda>(k', vs'). if k' = k then (k', vs' @ [v]) else (k', vs')) d)"

text \<open>
  The local variable \<^verbatim>\<open>kwargs\<close> of \<^verbatim>\<open>constraint_logpdf\<close>: not yet assigned, or a
  dictionary that is empty or holds the entry \<^verbatim>\<open>sigma\<close>. The branch for the density
  type \<^verbatim>\<open>normal\<close> assigns it only for the classes \<^verbatim>\<open>histosys\<close>, \<^verbatim>\<open>normsys\<close> and
  \<^verbatim>\<open>staterror\<close>; for any other class the variable keeps the value of the previous
  iteration, and reading it before the first assignment raises \<^verbatim>\<open>UnboundLocalError\<close>.
\<close>

datatype kwargs = Unassigned | Kwargs "fl list option"

definition assign_kwargs ::
  "'d model \<Rightarrow> string \<Rightarrow> modifier \<Rightarrow> string \<Rightarrow> kwargs \<Rightarrow> error + kwargs" where
  "assign_kwargs self cname modifier ptype kwargs =
     (if ptype = ''normal''
      then (if type_name modifier \<in> {''histosys'', ''normsys''}
            then Inr (Kwargs (Some [Fin 1]))
            else if type_name modifier \<in> {''staterror''}
            then (case m_finalized_stats self cname of
                    None \<Rightarrow> Inl KeyError
                  | Some s \<Rightarrow> Inr (Kwargs (Some s)))
            else Inr kwargs)
      else Inr (Kwargs None))"

text \<open>
  The loop of \<^verbatim>\<open>constraint_logpdf\<close> over \<^verbatim>\<open>config.auxdata_order\<close>, with the state
  \<^verbatim>\<open>start_index\<close>, \<^verbatim>\<open>kwargs\<close> and \<^verbatim>\<open>bytype\<close>. The expression
  \<^verbatim>\<open>kwargs['sigma'] if kwargs else []\<close> is the empty list for the empty dictionary.
\<close>

fun constraint_loop ::
  "'d model \<Rightarrow> real list \<Rightarrow> real list \<Rightarrow> string list \<Rightarrow> nat \<Rightarrow> kwargs \<Rightarrow> bytype \<Rightarrow>
     error + bytype" where
  "constraint_loop self aux_data pars [] start_index kwargs bytype = Inr bytype"
| "constraint_loop self aux_data pars (cname # rest) start_index kwargs bytype =
     (case modifier_ref (m_config self) cname of
        Inl e \<Rightarrow> Inl e
      | Inr r \<Rightarrow>
          (case par_slice (m_config self) cname of
             Inl e \<Rightarrow> Inl e
           | Inr (start, stop) \<Rightarrow>
               let modifier = objects (m_config self) ! r in
               (case alphas modifier of
                  None \<Rightarrow> Inl AttributeError
                | Some alphas_of \<Rightarrow>
                    let modalphas = alphas_of (py_slice start stop pars);
                        end_index = start_index + length modalphas;
                        thisauxdata = py_slice start_index end_index aux_data
                    in (case pdf_type modifier of
                          None \<Rightarrow> Inl AttributeError
                        | Some ptype \<Rightarrow>
                            (case assign_kwargs self cname modifier ptype kwargs of
                               Inl e \<Rightarrow> Inl e
                             | Inr Unassigned \<Rightarrow> Inl UnboundLocalError
                             | Inr (Kwargs sigma) \<Rightarrow>
                                 constraint_loop self aux_data pars rest end_index (Kwargs sigma)
                                   (setdefault_append ptype
                                      (thisauxdata, modalphas,
                                       (case sigma of None \<Rightarrow> [] | Some s \<Rightarrow> s))
                                      bytype))))))"

text \<open>
  \<^verbatim>\<open>__calculate_constraint\<close>: the loop over the items of \<^verbatim>\<open>bytype\<close> with the state
  \<^verbatim>\<open>newsummands\<close>, and the final sum, which is the number 0 when there was no item.
\<close>

fun calculate_loop ::
  "tensorlib \<Rightarrow> bytype \<Rightarrow> fl list list option \<Rightarrow> error + fl list list option" where
  "calculate_loop tensorlib [] newsummands = Inr newsummands"
| "calculate_loop tensorlib ((k, c) # rest) newsummands =
     (case tl_call tensorlib k c of
        Inl e \<Rightarrow> Inl e
      | Inr pdfval \<Rightarrow>
          let constraint_term = map (tl_log tensorlib) pdfval in
          (case newsummands of
             None \<Rightarrow> calculate_loop tensorlib rest (Some constraint_term)
           | Some summands \<Rightarrow>
               (case tl_concatenate tensorlib summands constraint_term of
                  Inl e \<Rightarrow> Inl e
                | Inr summands' \<Rightarrow> calculate_loop tensorlib rest (Some summands'))))"

definition calculate_constraint :: "tensorlib \<Rightarrow> bytype \<Rightarrow> error + fl" where
  "calculate_constraint tensorlib bytype =
     (case calculate_loop tensorlib bytype None of
        Inl e \<Rightarrow> Inl e
      | Inr None \<Rightarrow> Inr (Fin 0)
      | Inr (Some newsummands) \<Rightarrow> Inr (tl_sum tensorlib (concat newsummands)))"

definition constraint_logpdf ::
  "tensorlib \<Rightarrow> 'd model \<Rightarrow> real list \<Rightarrow> real list \<Rightarrow> error + fl" where
  "constraint_logpdf tensorlib self aux_data pars =
     (case constraint_loop self aux_data pars (auxdata_order (m_config self)) 0 Unassigned [] of
        Inl e \<Rightarrow> Inl e
      | Inr bytype \<Rightarrow> calculate_constraint tensorlib bytype)"

section \<open>The model: log-likelihood\<close>

text \<open>
  The first two statements of \<^verbatim>\<open>logpdf\<close> after the conversion to tensors: the cut is
  computed from the end of \<^verbatim>\<open>data\<close>, by the length of \<^verbatim>\<open>config.auxdata\<close>.
\<close>

definition split_data :: "'d model \<Rightarrow> real list \<Rightarrow> real list \<times> real list" where
  "split_data self data =
     (let cut_at = int (length data) - int (length (auxdata (m_config self)))
      in (slice_to cut_at data, slice_from cut_at data))"

text \<open>
  \<^verbatim>\<open>logpdf\<close>. The expected data are computed first, then the Poisson term, then the
  constraint term. The result is the one-element tensor
  \<^verbatim>\<open>astensor(result) * ones((1))\<close>.
\<close>

definition logpdf ::
  "tensorlib \<Rightarrow> 'd model \<Rightarrow> combiners \<Rightarrow> real list \<Rightarrow> real list \<Rightarrow> error + fl list" where
  "logpdf tensorlib self combine pars data =
     (case split_data self data of (actual_data, aux_data) \<Rightarrow>
        (case expected_actualdata self combine pars of
           Inl e \<Rightarrow> Inl e
         | Inr lambdas_data \<Rightarrow>
             (case tl_poisson tensorlib actual_data lambdas_data of
                Inl e \<Rightarrow> Inl e
              | Inr density \<Rightarrow>
                  let summands = tl_log tensorlib density in
                  (case constraint_logpdf tensorlib self aux_data pars of
                     Inl e \<Rightarrow> Inl e
                   | Inr constraint \<Rightarrow>
                       let result = fadd (tl_sum tensorlib summands) constraint
                       in Inr (map (fmul result) [Fin 1])))))"

section \<open>The optimizer\<close>

text \<open>
  \<^verbatim>\<open>tflow_optimizer\<close>. TensorFlow's automatic differentiation and matrix inverse are
  external collaborators and a parameter of the model: the gradient and the Hessian of a
  function of the differentiated vector at a point, and the inverse of a matrix, which
  raises \<^verbatim>\<open>InvalidArgumentError\<close> when the matrix is not invertible.
\<close>

record tf =
  tf_gradients :: "(real list \<Rightarrow> real) \<Rightarrow> real list \<Rightarrow> real list"
  tf_hessians :: "(real list \<Rightarrow> real) \<Rightarrow> real list \<Rightarrow> real list list"
  tf_inv :: "real list list \<Rightarrow> error + real list list"

text \<open>
  The graph of the update: \<^verbatim>\<open>hessian = tf.hessians(...)[0] + 1e-10\<close> adds the scalar to
  every entry of the matrix, and
  \<^verbatim>\<open>tf.transpose(tf.matmul(invhess, tf.transpose(tf.stack([gradient]))))[0]\<close> is the
  product of the inverse with the gradient vector. \<open>update tf f x\<close> is
  \<^verbatim>\<open>session.run(update, feed_dict={...: x})\<close> for the objective \<open>f\<close> of the
  differentiated vector.
\<close>

definition regulariser :: real where
  "regulariser = 1 / 10 ^ 10"

definition regularised :: "real list list \<Rightarrow> real list list" where
  "regularised hessian = map (map (\<lambda>h. h + regulariser)) hessian"

definition matvec :: "real list list \<Rightarrow> real list \<Rightarrow> real list" where
  "matvec m v = map (\<lambda>row. sum_list (map2 (*) row v)) m"

definition update :: "tf \<Rightarrow> (real list \<Rightarrow> real) \<Rightarrow> real list \<Rightarrow> error + real list" where
  "update tf f x =
     (case tf_inv tf (regularised (tf_hessians tf f x)) of
        Inl e \<Rightarrow> Inl e
      | Inr invhess \<Rightarrow> Inr (matvec invhess (tf_gradients tf f x)))"

text \<open>
  numpy on one-dimensional arrays: the difference broadcasts an operand of length 1 and
  raises \<^verbatim>\<open>ValueError\<close> for other unequal lengths; \<^verbatim>\<open>np.max\<close> raises \<^verbatim>\<open>ValueError\<close> on
  an empty array.
\<close>

definition np_sub :: "real list \<Rightarrow> real list \<Rightarrow> error + real list" where
  "np_sub xs ys =
     (if length xs = length ys then Inr (map2 (-) xs ys)
      else if length ys = 1 then Inr (map (\<lambda>x. x - hd ys) xs)
      else if length xs = 1 then Inr (map (\<lambda>y. hd xs - y) ys)
      else Inl ValueError)"

definition np_max :: "real list \<Rightarrow> error + real" where
  "np_max xs = (case xs of [] \<Rightarrow> Inl ValueError | x # rest \<Rightarrow> Inr (fold max rest x))"

text \<open>
  One pass of the body of the \<^verbatim>\<open>try\<close> block: the new estimate and whether the loop
  breaks, by the test \<^verbatim>\<open>np.abs(np.max(up)) < 1e-4\<close>.
\<close>

definition tolerance :: real where
  "tolerance = 1 / 10 ^ 4"

definition newton_step :: "real list \<Rightarrow> real list \<Rightarrow> error + (real list \<times> bool)" where
  "newton_step best_fit up =
     (case np_sub best_fit up of
        Inl e \<Rightarrow> Inl e
      | Inr best_fit' \<Rightarrow>
          (case np_max up of
             Inl e \<Rightarrow> Inl e
           | Inr m \<Rightarrow> Inr (best_fit', \<bar>m\<bar> < tolerance)))"

text \<open>
  The loop of \<^verbatim>\<open>unconstrained_bestfit\<close>, with the number of iterations left and the
  number of iterations begun so far. Its handler for \<^verbatim>\<open>InvalidArgumentError\<close> builds the
  dictionary \<^verbatim>\<open>{best_fit: best_fit}\<close>, whose key is a list or an array and not hashable:
  the handler raises \<^verbatim>\<open>TypeError\<close>.
\<close>

fun newton_unconstrained ::
  "nat \<Rightarrow> (real list \<Rightarrow> error + real list) \<Rightarrow> real list \<Rightarrow> nat \<Rightarrow> error + (real list \<times> nat)" where
  "newton_unconstrained 0 run best_fit i = Inr (best_fit, i)"
| "newton_unconstrained (Suc k) run best_fit i =
     (case run best_fit of
        Inl e \<Rightarrow> if e = InvalidArgumentError then Inl TypeError else Inl e
      | Inr up \<Rightarrow>
          (case newton_step best_fit up of
             Inl e \<Rightarrow> Inl e
           | Inr (best_fit', stop) \<Rightarrow>
               if stop then Inr (best_fit', Suc i)
               else newton_unconstrained k run best_fit' (Suc i)))"

definition unconstrained_bestfit ::
  "tf \<Rightarrow> (real list \<Rightarrow> 'a \<Rightarrow> 'p \<Rightarrow> real) \<Rightarrow> 'a \<Rightarrow> 'p \<Rightarrow> real list \<Rightarrow> 'b \<Rightarrow> error + real list" where
  "unconstrained_bestfit tf objective data pdf init_pars par_bounds =
     (case newton_unconstrained 1000 (update tf (\<lambda>pars. objective pars data pdf)) init_pars 0 of
        Inl e \<Rightarrow> Inl e
      | Inr (best_fit, i) \<Rightarrow> Inr best_fit)"

text \<open>
  \<^verbatim>\<open>constrained_bestfit\<close>. The nuisance parameters are the initial parameters without
  the one at \<^verbatim>\<open>poi_index\<close>, and the vector handed to the objective is
  \<^verbatim>\<open>concatenate([nuis_cat[:0], poi_par, nuis_cat[0:]])\<close>.
\<close>

definition nuisance :: "nat option \<Rightarrow> real list \<Rightarrow> real list" where
  "nuisance poi init_pars =
     map snd (filter (\<lambda>(i, p). Some i \<noteq> poi) (enumerate 0 init_pars))"

definition constrained_pars :: "real \<Rightarrow> real list \<Rightarrow> real list" where
  "constrained_pars constrained_mu nuis_cat = take 0 nuis_cat @ [constrained_mu] @ drop 0 nuis_cat"

text \<open>
  The loop of \<^verbatim>\<open>constrained_bestfit\<close>. Its handler logs and the loop goes on with the
  estimate unchanged (the logging run evaluates objective and Hessian only and is taken
  not to raise). The estimate starts as a Python list and becomes a numpy array with
  the first successful subtraction; the flag records which it is.
\<close>

fun newton_constrained ::
  "nat \<Rightarrow> (real list \<Rightarrow> error + real list) \<Rightarrow> real list \<times> bool \<Rightarrow> nat \<Rightarrow>
     error + ((real list \<times> bool) \<times> nat)" where
  "newton_constrained 0 run st i = Inr (st, i)"
| "newton_constrained (Suc k) run (best_fit_nuis, is_array) i =
     (case run best_fit_nuis of
        Inl e \<Rightarrow>
          if e = InvalidArgumentError
          then newton_constrained k run (best_fit_nuis, is_array) (Suc i)
          else Inl e
      | Inr up \<Rightarrow>
          (case newton_step best_fit_nuis up of
             Inl e \<Rightarrow> Inl e
           | Inr (best_fit_nuis', stop) \<Rightarrow>
               if stop then Inr ((best_fit_nuis', True), Suc i)
               else newton_constrained k run (best_fit_nuis', True) (Suc i)))"

text \<open>
  \<^verbatim>\<open>list.insert(i, x)\<close> for a non-negative index, which appends when the index is past
  the end. A list has no \<^verbatim>\<open>tolist\<close>: when no iteration succeeded the last statements
  raise \<^verbatim>\<open>AttributeError\<close>; inserting at the index \<^verbatim>\<open>None\<close> raises \<^verbatim>\<open>TypeError\<close>.
\<close>

definition py_insert :: "nat \<Rightarrow> 'a \<Rightarrow> 'a list \<Rightarrow> 'a list" where
  "py_insert i x xs = take i xs @ [x] @ drop i xs"

definition fit_nuisance ::
  "tf \<Rightarrow> (real list \<Rightarrow> 'a \<Rightarrow> 'd model \<Rightarrow> real) \<Rightarrow> real \<Rightarrow> 'a \<Rightarrow> 'd model \<Rightarrow> real list \<Rightarrow>
     error + ((real list \<times> bool) \<times> nat)" where
  "fit_nuisance tf objective constrained_mu data pdf init_pars =
     newton_constrained 1000
       (update tf (\<lambda>nuis_cat. objective (constrained_pars constrained_mu nuis_cat) data pdf))
       (nuisance (poi_index (m_config pdf)) init_pars, False) 0"

definition constrained_bestfit ::
  "tf \<Rightarrow> (real list \<Rightarrow> 'a \<Rightarrow> 'd model \<Rightarrow> real) \<Rightarrow> real \<Rightarrow> 'a \<Rightarrow> 'd model \<Rightarrow> real list \<Rightarrow> 'b \<Rightarrow>
     error + real list" where
  "constrained_bestfit tf objective constrained_mu data pdf init_pars par_bounds =
     (case fit_nuisance tf objective constrained_mu data pdf init_pars of
        Inl e \<Rightarrow> Inl e
      | Inr ((best_fit_nuis, is_array), i) \<Rightarrow>
          if \<not> is_array then Inl AttributeError
          else (case poi_index (m_config pdf) of
                  None \<Rightarrow> Inl TypeError
                | Some k \<Rightarrow> Inr (py_insert k constrained_mu best_fit_nuis)))"

text \<open>
  Modelled from the spec: combiners for the model \<open>hepdata_like\<close>. The normalisation
  factor \<^verbatim>\<open>mu\<close> scales both bins of the signal sample (modifier 0, sample slot 0) and
  the per-bin parameters of the \<^verbatim>\<open>shapesys\<close> modifier scale the bins of the background
  sample (modifier 1, sample slot 1).
\<close>

definition hepdata_combine :: combiners where
  "hepdata_combine mtype pars =
     (case pars of
        [mu, g1, g2] \<Rightarrow>
          if mtype = ''normfactor'' then [''mu'' \<mapsto> [((0, 0, 0, 0), [Fin mu, Fin mu])]]
          else if mtype = ''shapesys''
          then [''uncorr_bkguncrt'' \<mapsto> [((0, 1, 0, 1), [Fin g1, Fin g2])]]
          else Map.empty
      | _ \<Rightarrow> Map.empty)"

text \<open>
  Modelled from the spec: a stand-in for the numeric backend, used only to evaluate the
  model at concrete inputs. Its shape checks are those of numpy: two one-dimensional
  tensors combine when they are equally long or one has a single entry, the triples
  handed to \<open>tl_call\<close> form a tensor when all their components are equally long, and
  the only function of three arguments is \<^verbatim>\<open>normal\<close> (\<^verbatim>\<open>poisson\<close> takes two). Its
  densities are not the Poisson and normal ones: \<^verbatim>\<open>poisson(n, lam)\<close> is \<open>n * lam\<close>,
  \<^verbatim>\<open>normal(x, mu, sigma)\<close> is \<open>(x + mu) * sigma\<close>, and the logarithm and the square root
  are the identity.
\<close>

definition broadcast2 :: "('a \<Rightarrow> 'b \<Rightarrow> 'c) \<Rightarrow> 'a list \<Rightarrow> 'b list \<Rightarrow> error + 'c list" where
  "broadcast2 f xs ys =
     (if length xs = length ys then Inr (map2 f xs ys)
      else if length ys = 1 then Inr (map (\<lambda>x. f x (hd ys)) xs)
      else if length xs = 1 then Inr (map (f (hd xs)) ys)
      else Inl ValueError)"

definition rectangular :: "callargs list \<Rightarrow> bool" where
  "rectangular c =
     (case c of
        [] \<Rightarrow> True
      | (x0, mu0, sigma0) # rest \<Rightarrow>
          list_all (\<lambda>(x, mu, sigma). length x = length x0 \<and> length mu = length x0 \<and>
                      length sigma = length x0) c)"

definition stand_in_normal :: "callargs \<Rightarrow> fl list" where
  "stand_in_normal = (\<lambda>(x, mu, sigma). map2 (\<lambda>a (m, s). fmul (fadd (Fin a) m) s) x (zip mu sigma))"

definition column_sums :: "fl list list \<Rightarrow> error + fl list" where
  "column_sums rows =
     (case rows of
        [] \<Rightarrow> Inr []
      | row # rest \<Rightarrow>
          if list_all (\<lambda>r. length r = length row) rest
          then Inr (foldr (map2 fadd) rest row)
          else Inl ValueError)"

definition fdiv :: "fl \<Rightarrow> fl \<Rightarrow> fl" where
  "fdiv x y =
     (case (x, y) of (Fin a, Fin b) \<Rightarrow> if b = 0 then NaN else Fin (a / b) | _ \<Rightarrow> NaN)"

definition stand_in_backend :: tensorlib where
  "stand_in_backend =
     \<lparr>tl_poisson = broadcast2 (\<lambda>n lam. fmul (Fin n) lam),
      tl_log = (\<lambda>xs. xs),
      tl_sum = np_sum,
      tl_call = (\<lambda>k c. if \<not> rectangular c then Inl ValueError
                        else if k = ''normal'' then Inr (map stand_in_normal c)
                        else if k = ''poisson'' then Inl TypeError
                        else Inl AttributeError),
      tl_concatenate = (\<lambda>a b. case (a, b) of
                          (ra # _, rb # _) \<Rightarrow>
                            if length ra = length rb then Inr (a @ b) else Inl ValueError
                        | _ \<Rightarrow> Inr (a @ b)),
      tl_power = (\<lambda>rows k. map (map (\<lambda>x. foldr fmul (replicate k x) (Fin 1))) rows),
      tl_sum_axis0 = column_sums,
      tl_sqrt = (\<lambda>xs. xs),
      tl_divide = broadcast2 fdiv\<rparr>"

text \<open>
  A one-channel model whose background carries a \<^verbatim>\<open>normsys\<close> modifier, which is
  constrained by a normal density, and combiners for it: the normalisation factor
  \<^verbatim>\<open>mu\<close> scales the signal and the \<^verbatim>\<open>normsys\<close> parameter \<open>alpha\<close> scales the background
  by \<open>1 + alpha\<close>.
\<close>

definition normsys_like :: "real list spec" where
  "normsys_like =
     [\<lparr>c_name = ''singlechannel'', c_samples =
        [\<lparr>s_name = ''signal'', s_data = [12, 11], s_modifiers = [mu_def]\<rparr>,
         \<lparr>s_name = ''background'', s_data = [50, 52], s_modifiers =
            [\<lparr>md_name = ''lumi'', md_type = ''normsys'', md_data = []\<rparr>]\<rparr>]\<rparr>]"

definition normsys_combine :: combiners where
  "normsys_combine mtype pars =
     (case pars of
        [mu, alpha] \<Rightarrow>
          if mtype = ''normfactor'' then [''mu'' \<mapsto> [((0, 0, 0, 0), [Fin mu, Fin mu])]]
          else if mtype = ''normsys''
          then [''lumi'' \<mapsto> [((0, 1, 0, 1), [Fin (1 + alpha), Fin (1 + alpha)])]]
          else Map.empty
      | _ \<Rightarrow> Map.empty)"

text \<open>
  Specifications for the nominal cube: two channels with two and three bins, a sample
  with a single bin beside one with two, and a channel with fewer samples than another.
\<close>

definition unequal_bins :: "real list spec" where
  "unequal_bins =
     [\<lparr>c_name = ''A'', c_samples =
        [\<lparr>s_name = ''signal'', s_data = [12, 11], s_modifiers = [mu_def]\<rparr>]\<rparr>,
      \<lparr>c_name = ''B'', c_samples =
        [\<lparr>s_name = ''background'', s_data = [50, 52, 30], s_modifiers = []\<rparr>]\<rparr>]"

definition single_bin_sample :: "real list spec" where
  "single_bin_sample =
     [\<lparr>c_name = ''A'', c_samples =
        [\<lparr>s_name = ''signal'', s_data = [5], s_modifiers = [mu_def]\<rparr>,
         \<lparr>s_name = ''background'', s_data = [50, 52], s_modifiers = []\<rparr>]\<rparr>]"

definition fewer_samples :: "real list spec" where
  "fewer_samples =
     [\<lparr>c_name = ''A'', c_samples =
        [\<lparr>s_name = ''signal'', s_data = [12, 11], s_modifiers = [mu_def]\<rparr>,
         \<lparr>s_name = ''background'', s_data = [50, 52], s_modifiers = []\<rparr>]\<rparr>,
      \<lparr>c_name = ''B'', c_samples =
        [\<lparr>s_name = ''background'', s_data = [30, 31], s_modifiers = []\<rparr>]\<rparr>]"

section \<open>An objective and a backend for evaluating the optimizer\<close>

text \<open>
  A concrete objective of two parameters, \<open>x\<^sup>4 + y\<^sup>2 / 2\<close>, with its exact gradient and
  Hessian and the exact inverse of a 2 by 2 matrix in the place of the TensorFlow
  operations. It is used only to evaluate the optimizer at concrete inputs.
\<close>

definition quartic :: "real list \<Rightarrow> real" where
  "quartic pars = (case pars of [x, y] \<Rightarrow> x ^ 4 + y\<^sup>2 / 2 | _ \<Rightarrow> 0)"

fun quartic_gradient :: "real list \<Rightarrow> real list" where
  "quartic_gradient [x, y] = [4 * x ^ 3, y]"
| "quartic_gradient _ = []"

fun quartic_hessian :: "real list \<Rightarrow> real list list" where
  "quartic_hessian [x, y] = [[12 * x\<^sup>2, 0], [0, 1]]"
| "quartic_hessian _ = []"

fun inv2 :: "real list list \<Rightarrow> error + real list list" where
  "inv2 [[a, b], [c, d]] =
     (if a * d - b * c = 0 then Inl InvalidArgumentError
      else Inr [[d / (a * d - b * c), - b / (a * d - b * c)],
                [- c / (a * d - b * c), a / (a * d - b * c)]])"
| "inv2 _ = Inl InvalidArgumentError"

definition quartic_tf :: tf where
  "quartic_tf =
     \<lparr>tf_gradients = (\<lambda>f pars. quartic_gradient pars),
      tf_hessians = (\<lambda>f pars. quartic_hessian pars),
      tf_inv = inv2\<rparr>"

text \<open>
  A model whose parameter of interest is parameter \<open>k\<close> (the optimizer reads nothing
  else of the model) and the quartic objective as a function of the full parameter
  vector.
\<close>

definition fixed_poi_model :: "nat \<Rightarrow> real list model" where
  "fixed_poi_model k =
     \<lparr>m_spec = [], m_config = init_config\<lparr>poi_index := Some k\<rparr>, m_cube = [],
      m_finalized_stats = Map.empty, m_allmods = []\<rparr>"

definition quartic_objective :: "real list \<Rightarrow> unit \<Rightarrow> 'p \<Rightarrow> real" where
  "quartic_objective pars data pdf = quartic pars"

text \<open>
  A backend that differentiates the objective it is given: central differences for the
  gradient and second differences for the Hessian, both with step 1, which are the exact
  derivatives of every objective that is a polynomial of degree at most two.
\<close>

definition shift :: "real list \<Rightarrow> nat \<Rightarrow> real \<Rightarrow> real list" where
  "shift x i h = list_update x i (x ! i + h)"

definition difference_gradient :: "(real list \<Rightarrow> real) \<Rightarrow> real list \<Rightarrow> real list" where
  "difference_gradient f x =
     map (\<lambda>i. (f (shift x i 1) - f (shift x i (- 1))) / 2) [0..<length x]"

definition difference_hessian :: "(real list \<Rightarrow> real) \<Rightarrow> real list \<Rightarrow> real list list" where
  "difference_hessian f x =
     map (\<lambda>i. map (\<lambda>j. f (shift (shift x i 1) j 1) - f (shift x i 1) - f (shift x j 1) + f x)
                 [0..<length x]) [0..<length x]"

definition difference_tf :: tf where
  "difference_tf =
     \<lparr>tf_gradients = difference_gradient, tf_hessians = difference_hessian, tf_inv = inv2\<rparr>"

text \<open>
  An objective of three parameters that couples parameter 0 to parameter 1,
  \<open>(p\<^sub>0 - 2 p\<^sub>1)\<^sup>2 + (p\<^sub>2 - 3)\<^sup>2\<close>: with parameter 1 held at 1 its minimum is at
  \<open>[2, 1, 3]\<close>. The second objective agrees with it only on vectors whose entry 0 is 1.
\<close>

definition coupled_objective :: "real list \<Rightarrow> unit \<Rightarrow> 'p \<Rightarrow> real" where
  "coupled_objective pars data pdf =
     (case pars of [a, b, c] \<Rightarrow> (a - 2 * b)\<^sup>2 + (c - 3)\<^sup>2 | _ \<Rightarrow> 0)"

definition coupled_masked :: "real list \<Rightarrow> unit \<Rightarrow> 'p \<Rightarrow> real" where
  "coupled_masked pars data pdf =
     (case pars of [] \<Rightarrow> 7 | p # rest \<Rightarrow> if p = 1 then coupled_objective pars data pdf else 7)"

lemmas example_defs = example_registry_def normfactor_cls_def normsys_cls_def shapesys_cls_def
  mu_def_def from_spec_def init_walk_def init_config_def finish_walk_def set_poi_def
  add_or_get_modifier_def new_modifier_def add_sample_def par_slice_def qualified_name_def
  modifier_ref_def suggested_init_def suggested_bounds_def

section \<open>Properties of the parameter configuration\<close>

lemma length_alloc_slices [simp]: "length (alloc_slices a ns) = length ns"
  by (induction ns arbitrary: a) auto

lemma alloc_slices_snoc:
  "alloc_slices a (ns @ [n]) = alloc_slices a ns @ [(a + sum_list ns, a + sum_list ns + n)]"
  by (induction ns arbitrary: a) (auto simp: add.assoc)

lemma alloc_inv_init: "alloc_inv init_config"
  by (simp add: alloc_inv_def init_config_def layout_def)

lemma aux_inv_init: "aux_inv init_config"
  by (simp add: aux_inv_def init_config_def)

lemma alloc_inv_aux_upd [simp]:
  "alloc_inv (self\<lparr>auxdata := a, auxdata_order := b\<rparr>) = alloc_inv self"
  by (simp add: alloc_inv_def layout_def)

lemma par_map_ref_bound:
  assumes "alloc_inv self" and "par_map self name = Some (sl, r)"
  shows "r < length (objects self)"
proof -
  from assms have "(name, (sl, r)) \<in> set (layout self)"
    by (auto simp: alloc_inv_def dest: map_of_SomeD)
  then have "(sl, r) \<in> set (zip (alloc_slices 0 (map n_parameters (objects self))) [0..<length (objects self)])"
    unfolding layout_def by (rule set_zip_rightD)
  then have "r \<in> set [0..<length (objects self)]"
    by (rule set_zip_rightD)
  then show ?thesis by simp
qed

lemma layout_snoc:
  assumes "length (par_order self) = length (objects self)"
  shows "layout (self\<lparr>objects := objects self @ [m], next_index := k,
                     par_order := par_order self @ [name], par_map := pm\<rparr>) =
         layout self @ [(name, ((sum_list (map n_parameters (objects self)),
                                 sum_list (map n_parameters (objects self)) + n_parameters m),
                                length (objects self)))]"
  using assms by (simp add: layout_def alloc_slices_snoc)

lemma alloc_inv_add_or_get:
  assumes "alloc_inv self" and "add_or_get_modifier registry self channel sample d = Inr (self', r)"
  shows "alloc_inv self' \<and> r < length (objects self')"
proof -
  obtain cls where cls: "registry (md_type d) = Some cls"
    using assms(2) by (auto simp: add_or_get_modifier_def split: option.splits)
  show ?thesis
  proof (cases "is_shared cls \<and> par_map self (md_name d) \<noteq> None")
    case True
    then obtain sl r0 where pm: "par_map self (md_name d) = Some (sl, r0)" by auto
    with True cls assms(2) have "self' = self" "r = r0"
      by (auto simp: add_or_get_modifier_def split: if_splits)
    with assms(1) pm show ?thesis by (auto dest: par_map_ref_bound)
  next
    case False
    let ?m = "new_modifier cls (s_data sample) (md_data d)"
    let ?s1 = "self\<lparr>objects := objects self @ [?m],
                     next_index := next_index self + n_parameters ?m,
                     par_order := par_order self @ [md_name d],
                     par_map := (par_map self)(md_name d \<mapsto>
                        ((next_index self, next_index self + n_parameters ?m), length (objects self)))\<rparr>"
    have len: "length (par_order self) = length (objects self)"
      using assms(1) by (simp add: alloc_inv_def)
    have lay: "layout ?s1 = layout self @ [(md_name d, ((next_index self, next_index self + n_parameters ?m), length (objects self)))]"
      using layout_snoc[OF len] assms(1) by (simp add: alloc_inv_def)
    have inv1: "alloc_inv ?s1"
      unfolding alloc_inv_def lay using assms(1) by (simp add: alloc_inv_def)
    have r: "r = length (objects self)"
      and s': "self' = (if is_constrained ?m
                  then ?s1\<lparr>auxdata := auxdata ?s1 @ m_auxdata ?m,
                           auxdata_order := auxdata_order ?s1 @ [md_name d]\<rparr> else ?s1)"
      using False cls assms(2) by (auto simp: add_or_get_modifier_def Let_def split: if_splits)
    have "alloc_inv self'"
      unfolding s' using inv1 by (simp add: alloc_inv_aux_upd)
    moreover have "r < length (objects self')"
      unfolding s' r by simp
    ultimately show ?thesis by simp
  qed
qed

lemma aux_inv_add_or_get:
  assumes "aux_inv self" and "add_or_get_modifier registry self channel sample d = Inr (self', r)"
  shows "aux_inv self'"
  using assms
  by (auto simp: add_or_get_modifier_def aux_inv_def Let_def split: option.splits if_splits)

lemma map_add_sample:
  assumes "\<And>m. g (add_sample m c s d) = g m"
  shows "map g (xs[r := add_sample (xs ! r) c s d]) = map g xs"
proof (cases "r < length xs")
  case True
  then show ?thesis by (simp add: map_update assms list_update_same_conv)
next
  case False
  then show ?thesis by (simp add: list_update_beyond)
qed

lemma add_sample_fields [simp]:
  "n_parameters (add_sample m c s d) = n_parameters m"
  "is_constrained (add_sample m c s d) = is_constrained m"
  "m_auxdata (add_sample m c s d) = m_auxdata m"
  "m_suggested_init (add_sample m c s d) = m_suggested_init m"
  "m_suggested_bounds (add_sample m c s d) = m_suggested_bounds m"
  "type_name (add_sample m c s d) = type_name m"
  by (simp_all add: add_sample_def)

lemma cfg_inv_add_sample:
  assumes "cfg_inv self"
  shows "cfg_inv (self\<lparr>objects := (objects self)[r := add_sample (objects self ! r) c s d]\<rparr>)"
  using assms
  by (simp add: cfg_inv_def alloc_inv_def aux_inv_def layout_def map_add_sample)

lemma cfg_inv_walk_modifiers:
  assumes "cfg_inv (w_instance w)"
    and "walk_modifiers registry q channel sample ds w = Inr w'"
  shows "cfg_inv (w_instance w')"
  using assms
proof (induction ds arbitrary: w)
  case Nil
  then show ?case by simp
next
  case (Cons d ds)
  let ?d = "if q then d\<lparr>md_name := qualified_name d\<rparr> else d"
  from Cons.prems(2) obtain inst r where
    step: "add_or_get_modifier registry (w_instance w) channel sample ?d = Inr (inst, r)"
    by (auto simp: Let_def split: sum.splits)
  from Cons.prems(1) step have "cfg_inv inst"
    by (auto simp: cfg_inv_def dest: alloc_inv_add_or_get aux_inv_add_or_get)
  then have inv': "cfg_inv (inst\<lparr>objects := (objects inst)[r := add_sample (objects inst ! r) channel sample ?d]\<rparr>)"
    by (rule cfg_inv_add_sample)
  let ?w1 = "w\<lparr>w_instance := inst\<lparr>objects := (objects inst)[r := add_sample (objects inst ! r) channel sample ?d]\<rparr>,
                 w_modifiers := w_modifiers w @ [md_name ?d],
                 w_poiname := (if q \<and> md_name d = w_poiname w then qualified_name d else w_poiname w)\<rparr>"
  from Cons.prems(2) step have rest: "walk_modifiers registry q channel sample ds ?w1 = Inr w'"
    by (simp add: Let_def)
  have "cfg_inv (w_instance ?w1)" using inv' by simp
  from Cons.IH[OF this rest] show ?case .
qed

lemma cfg_inv_walk_samples:
  assumes "cfg_inv (w_instance w)"
    and "walk_samples registry q channel ss w = Inr w'"
  shows "cfg_inv (w_instance w')"
  using assms
proof (induction ss arbitrary: w)
  case Nil
  then show ?case by simp
next
  case (Cons s ss)
  from Cons.prems(2) obtain w1 where
    step: "walk_modifiers registry q channel s (s_modifiers s) (w\<lparr>w_samples := w_samples w @ [s_name s]\<rparr>) = Inr w1"
    and rest: "walk_samples registry q channel ss w1 = Inr w'"
    by (auto split: sum.splits)
  have "cfg_inv (w_instance w1)"
    by (rule cfg_inv_walk_modifiers[OF _ step]) (simp add: Cons.prems(1))
  from Cons.IH[OF this rest] show ?case .
qed

lemma cfg_inv_walk_channels:
  assumes "cfg_inv (w_instance w)"
    and "walk_channels registry q cs w = Inr w'"
  shows "cfg_inv (w_instance w')"
  using assms
proof (induction cs arbitrary: w)
  case Nil
  then show ?case by simp
next
  case (Cons c cs)
  from Cons.prems(2) obtain w1 where
    step: "walk_samples registry q c (c_samples c) (w\<lparr>w_channels := w_channels w @ [c_name c]\<rparr>) = Inr w1"
    and rest: "walk_channels registry q cs w1 = Inr w'"
    by (auto split: sum.splits)
  have "cfg_inv (w_instance w1)"
    by (rule cfg_inv_walk_samples[OF _ step]) (simp add: Cons.prems(1))
  from Cons.IH[OF this rest] show ?case .
qed

lemma cfg_inv_from_spec:
  assumes "from_spec registry spec poiname q = Inr cfg"
  shows "cfg_inv cfg"
proof -
  from assms obtain w where
    w: "walk_channels registry q spec (init_walk poiname) = Inr w"
    and sp: "set_poi (finish_walk w) (w_poiname w) = Inr cfg"
    by (auto simp: from_spec_def split: sum.splits)
  have "cfg_inv (w_instance (init_walk poiname))"
    by (simp add: init_walk_def cfg_inv_def alloc_inv_init aux_inv_init)
  with w have "cfg_inv (w_instance w)" by (auto dest: cfg_inv_walk_channels)
  then have "cfg_inv (finish_walk w)"
    by (simp add: finish_walk_def cfg_inv_def alloc_inv_def aux_inv_def layout_def)
  moreover from sp obtain k where "cfg = (finish_walk w)\<lparr>poi_index := Some k\<rparr>"
    by (auto simp: set_poi_def split: if_splits sum.splits prod.splits)
  ultimately show ?thesis
    by (simp add: cfg_inv_def alloc_inv_def aux_inv_def layout_def)
qed

lemma contiguous_alloc_slices: "contiguous a (alloc_slices a ns) (a + sum_list ns)"
proof (induction ns arbitrary: a)
  case Nil
  then show ?case by simp
next
  case (Cons n ns)
  from Cons[of "a + n"] show ?case by (simp add: add.assoc)
qed

lemma alloc_slices_nth:
  "i < length ns \<Longrightarrow>
     alloc_slices a ns ! i = (a + sum_list (take i ns), a + sum_list (take (Suc i) ns))"
proof (induction ns arbitrary: a i)
  case Nil
  then show ?case by simp
next
  case (Cons n ns)
  then show ?case by (cases i) (auto simp: add.assoc)
qed

lemma sum_list_take_mono:
  fixes ns :: "nat list"
  assumes "i \<le> j"
  shows "sum_list (take i ns) \<le> sum_list (take j ns)"
proof -
  from assms have "take j ns = take i ns @ take (j - i) (drop i ns)"
    by (metis le_add_diff_inverse take_add)
  then show ?thesis by simp
qed

lemma alloc_slices_disjoint:
  assumes "i < j" and "j < length ns"
  shows "slice_range (alloc_slices a ns ! i) \<inter> slice_range (alloc_slices a ns ! j) = {}"
proof -
  have "sum_list (take (Suc i) ns) \<le> sum_list (take j ns)"
    using assms(1) by (intro sum_list_take_mono) simp
  with assms show ?thesis
    by (auto simp: slice_range_def alloc_slices_nth)
qed

lemma layout_entry:
  assumes "alloc_inv self" and "par_map self name = Some (sl, r)"
  shows "r < length (objects self) \<and> par_order self ! r = name \<and>
         sl = alloc_slices 0 (map n_parameters (objects self)) ! r"
proof -
  from assms have "(name, (sl, r)) \<in> set (layout self)"
    by (auto simp: alloc_inv_def dest: map_of_SomeD)
  then obtain i where i: "i < length (layout self)" "layout self ! i = (name, (sl, r))"
    by (auto simp: in_set_conv_nth)
  from assms(1) have len: "length (par_order self) = length (objects self)"
    by (simp add: alloc_inv_def)
  from i len have "i < length (objects self)" by (simp add: layout_def)
  with i(2) len show ?thesis by (auto simp: layout_def)
qed

lemma par_slices_disjoint:
  assumes "alloc_inv self" and "a \<noteq> b"
    and "par_slice self a = Inr sa" and "par_slice self b = Inr sb"
  shows "slice_range sa \<inter> slice_range sb = {}"
proof -
  from assms(3) obtain ra where a: "par_map self a = Some (sa, ra)"
    by (auto simp: par_slice_def split: option.splits)
  from assms(4) obtain rb where b: "par_map self b = Some (sb, rb)"
    by (auto simp: par_slice_def split: option.splits)
  note ea = layout_entry[OF assms(1) a] and eb = layout_entry[OF assms(1) b]
  from ea eb assms(2) have "ra \<noteq> rb" by auto
  then consider "ra < rb" | "rb < ra" by linarith
  then show ?thesis
  proof cases
    case 1
    with ea eb alloc_slices_disjoint[of ra rb "map n_parameters (objects self)" 0]
    show ?thesis by simp
  next
    case 2
    with ea eb alloc_slices_disjoint[of rb ra "map n_parameters (objects self)" 0]
    show ?thesis by (simp add: Int_commute)
  qed
qed

lemma par_map_distinct:
  assumes "alloc_inv self" and "distinct (par_order self)"
  shows "map (par_map self) (par_order self) =
         map Some (zip (alloc_slices 0 (map n_parameters (objects self)))
                       [0..<length (objects self)])"
proof (rule nth_equalityI)
  from assms(1) have len: "length (par_order self) = length (objects self)"
    by (simp add: alloc_inv_def)
  then show "length (map (par_map self) (par_order self)) =
    length (map Some (zip (alloc_slices 0 (map n_parameters (objects self))) [0..<length (objects self)]))"
    by simp
  fix i assume "i < length (map (par_map self) (par_order self))"
  then have i: "i < length (par_order self)" by simp
  let ?vals = "zip (alloc_slices 0 (map n_parameters (objects self))) [0..<length (objects self)]"
  have "map_of (zip (par_order self) ?vals) (par_order self ! i) = Some (?vals ! i)"
    using len i assms(2) by (intro map_of_zip_nth) simp_all
  moreover have "map_of (rev (layout self)) = map_of (layout self)"
  proof
    fix x
    have d: "distinct (map fst (layout self))"
      using len assms(2) by (simp add: layout_def)
    then have d': "distinct (map fst (rev (layout self)))"
      by (simp add: rev_map[symmetric])
    show "map_of (rev (layout self)) x = map_of (layout self) x"
    proof (cases "map_of (layout self) x")
      case None
      then have "x \<notin> fst ` set (layout self)" by (simp add: map_of_eq_None_iff)
      then have "map_of (rev (layout self)) x = None" by (simp add: map_of_eq_None_iff)
      with None show ?thesis by simp
    next
      case (Some y)
      with d have "(x, y) \<in> set (layout self)" by simp
      with d' have "map_of (rev (layout self)) x = Some y" by simp
      with Some show ?thesis by simp
    qed
  qed
  ultimately show "map (par_map self) (par_order self) ! i = map Some ?vals ! i"
    using assms(1) i len by (simp add: alloc_inv_def layout_def)
qed

lemma suggested_init_loop_eq:
  assumes "map (par_map self) names = map Some vals"
  shows "suggested_init_loop self names init =
         Inr (init @ concat (map (\<lambda>v. m_suggested_init (objects self ! snd v)) vals))"
  using assms
proof (induction names arbitrary: vals init)
  case Nil
  then show ?case by simp
next
  case (Cons n ns)
  then obtain v vs where vals: "vals = v # vs" "par_map self n = Some v"
    "map (par_map self) ns = map Some vs"
    by (cases vals) auto
  from Cons.IH[OF vals(3)] vals(1,2) show ?case
    by (cases v) (simp add: modifier_ref_def)
qed

lemma suggested_bounds_loop_eq:
  assumes "map (par_map self) names = map Some vals"
  shows "suggested_bounds_loop self names bounds =
         Inr (bounds @ concat (map (\<lambda>v. m_suggested_bounds (objects self ! snd v)) vals))"
  using assms
proof (induction names arbitrary: vals bounds)
  case Nil
  then show ?case by simp
next
  case (Cons n ns)
  then obtain v vs where vals: "vals = v # vs" "par_map self n = Some v"
    "map (par_map self) ns = map Some vs"
    by (cases vals) auto
  from Cons.IH[OF vals(3)] vals(1,2) show ?case
    by (cases v) (simp add: modifier_ref_def)
qed

lemma concat_by_ref:
  assumes "length sls = length objs"
  shows "concat (map (\<lambda>v. f (objs ! snd v)) (zip sls [0..<length objs])) = concat (map f objs)"
proof -
  have "map (\<lambda>v. f (objs ! snd v)) (zip sls [0..<length objs]) =
        map (\<lambda>r. f (objs ! r)) (map snd (zip sls [0..<length objs]))"
    by simp
  also have "\<dots> = map (\<lambda>r. f (objs ! r)) [0..<length objs]"
    using assms by simp
  also have "\<dots> = map f objs"
    by (rule nth_equalityI) simp_all
  finally show ?thesis by simp
qed

lemma length_concat_counts:
  assumes "\<forall>m\<in>set objs. length (f m) = n_parameters m"
  shows "length (concat (map f objs)) = sum_list (map n_parameters objs)"
  using assms by (induction objs) auto

lemma suggested_init_distinct:
  assumes "alloc_inv self" and "distinct (par_order self)"
  shows "suggested_init self = Inr (concat (map m_suggested_init (objects self)))"
    and "suggested_bounds self = Inr (concat (map m_suggested_bounds (objects self)))"
  using suggested_init_loop_eq[OF par_map_distinct[OF assms], of "[]"]
    suggested_bounds_loop_eq[OF par_map_distinct[OF assms], of "[]"]
  by (simp_all add: suggested_init_def suggested_bounds_def concat_by_ref)

lemma par_slices_distinct:
  assumes "alloc_inv self" and "distinct (par_order self)"
  shows "map (par_slice self) (par_order self) =
         map Inr (alloc_slices 0 (map n_parameters (objects self)))"
proof -
  have "map (par_slice self) (par_order self) =
        map (\<lambda>v. case v of None \<Rightarrow> Inl KeyError | Some (sl, r) \<Rightarrow> Inr sl)
          (map (par_map self) (par_order self))"
    by (simp add: par_slice_def fun_eq_iff)
  also have "\<dots> = map (\<lambda>v. Inr (fst v))
      (zip (alloc_slices 0 (map n_parameters (objects self))) [0..<length (objects self)])"
    unfolding par_map_distinct[OF assms] by (simp add: case_prod_beta)
  also have "\<dots> = map Inr (alloc_slices 0 (map n_parameters (objects self)))"
    by (rule nth_equalityI) simp_all
  finally show ?thesis .
qed

lemma walk_modifiers_names:
  assumes "walk_modifiers registry False channel sample ds w = Inr w'"
  shows "w_poiname w' = w_poiname w \<and> w_modifiers w' = w_modifiers w @ map md_name ds \<and>
         w_samples w' = w_samples w \<and> w_channels w' = w_channels w"
  using assms
proof (induction ds arbitrary: w)
  case Nil
  then show ?case by simp
next
  case (Cons d ds)
  from Cons.prems obtain inst r where
    step: "add_or_get_modifier registry (w_instance w) channel sample d = Inr (inst, r)"
    by (auto simp: Let_def split: sum.splits)
  let ?w1 = "w\<lparr>w_instance := inst\<lparr>objects := (objects inst)[r := add_sample (objects inst ! r) channel sample d]\<rparr>,
                 w_modifiers := w_modifiers w @ [md_name d], w_poiname := w_poiname w\<rparr>"
  from Cons.prems step have rest: "walk_modifiers registry False channel sample ds ?w1 = Inr w'"
    by (simp add: Let_def)
  from Cons.IH[OF rest] show ?case by simp
qed

lemma walk_samples_names:
  assumes "walk_samples registry False channel ss w = Inr w'"
  shows "w_poiname w' = w_poiname w \<and>
         w_modifiers w' = w_modifiers w @ concat (map (\<lambda>s. map md_name (s_modifiers s)) ss)"
  using assms
proof (induction ss arbitrary: w)
  case Nil
  then show ?case by simp
next
  case (Cons s ss)
  from Cons.prems obtain w1 where
    step: "walk_modifiers registry False channel s (s_modifiers s) (w\<lparr>w_samples := w_samples w @ [s_name s]\<rparr>) = Inr w1"
    and rest: "walk_samples registry False channel ss w1 = Inr w'"
    by (auto split: sum.splits)
  from walk_modifiers_names[OF step] Cons.IH[OF rest] show ?case by simp
qed

lemma walk_channels_names:
  assumes "walk_channels registry False cs w = Inr w'"
  shows "w_poiname w' = w_poiname w \<and> w_modifiers w' = w_modifiers w @ declared_names cs"
  using assms
proof (induction cs arbitrary: w)
  case Nil
  then show ?case by (simp add: declared_names_def)
next
  case (Cons c cs)
  from Cons.prems obtain w1 where
    step: "walk_samples registry False c (c_samples c) (w\<lparr>w_channels := w_channels w @ [c_name c]\<rparr>) = Inr w1"
    and rest: "walk_channels registry False cs w1 = Inr w'"
    by (auto split: sum.splits)
  from walk_samples_names[OF step] Cons.IH[OF rest] show ?case
    by (simp add: declared_names_def)
qed

section \<open>Properties of the expected data\<close>

lemma has_shape_full: "has_shape nc ns nb (full nc ns nb v)"
  by (auto simp: has_shape_def full_def)

lemma has_shape_nth:
  assumes "has_shape nc ns nb F" and "c < nc"
  shows "length (F ! c) = ns" and "s < ns \<Longrightarrow> length (F ! c ! s) = nb"
proof -
  from assms have mem: "F ! c \<in> set F" by (simp add: has_shape_def)
  with assms(1) show len: "length (F ! c) = ns" by (simp add: has_shape_def)
  assume "s < ns"
  with len have "F ! c ! s \<in> set (F ! c)" by simp
  with mem assms(1) show "length (F ! c ! s) = nb" by (simp add: has_shape_def)
qed

lemma has_shape_length: "has_shape nc ns nb F \<Longrightarrow> length F = nc"
  by (simp add: has_shape_def)

lemma has_shape_update:
  assumes "has_shape nc ns nb F" and "length row = nb"
  shows "has_shape nc ns nb (list_update F i (list_update (F ! i) j row))"
proof (cases "i < length F")
  case False
  with assms(1) show ?thesis by (simp add: list_update_beyond)
next
  case True
  have "length p = ns \<and> (\<forall>r\<in>set p. length r = nb)"
    if "p \<in> set (list_update F i (list_update (F ! i) j row))" for p
  proof -
    from that have "p = list_update (F ! i) j row \<or> p \<in> set F"
      using set_update_subset_insert[of F i] by auto
    then show ?thesis
    proof
      assume p: "p = list_update (F ! i) j row"
      have Fi: "length (F ! i) = ns" "\<forall>r\<in>set (F ! i). length r = nb"
        using assms(1) True by (auto simp: has_shape_def)
      have "set p \<subseteq> insert row (set (F ! i))"
        unfolding p by (rule set_update_subset_insert)
      with Fi assms(2) p show ?thesis by auto
    next
      assume "p \<in> set F"
      with assms(1) show ?thesis by (simp add: has_shape_def)
    qed
  qed
  with assms(1) show ?thesis by (simp add: has_shape_def)
qed

lemma shape_of_has_shape:
  assumes "has_shape nc ns nb F" and "0 < nc" and "0 < ns"
  shows "shape F = (nc, ns, nb)"
proof -
  from assms obtain p ps where F: "F = p # ps" by (cases F) (auto simp: has_shape_def)
  with assms have "length p = ns" "\<forall>r\<in>set p. length r = nb" by (auto simp: has_shape_def)
  with assms(3) obtain r rs where "p = r # rs" "length r = nb" by (cases p) auto
  with F assms(1) \<open>length p = ns\<close> show ?thesis by (auto simp: shape_def has_shape_def)
qed

lemma broadcast_row_length: "broadcast_row nb v = Inr row \<Longrightarrow> length row = nb"
  by (auto simp: broadcast_row_def split: if_splits)

lemma fill_samples_shape:
  assumes "fill_samples nb i j ss cube = Inr cube'" and "has_shape nc ns nb cube"
  shows "has_shape nc ns nb cube'"
  using assms
proof (induction ss arbitrary: j cube)
  case Nil
  then show ?case by simp
next
  case (Cons s ss)
  from Cons.prems(1) obtain row where row: "broadcast_row nb (map Fin (s_data s)) = Inr row"
    and rest: "fill_samples nb i (Suc j) ss (list_update cube i (list_update (cube ! i) j row)) = Inr cube'"
    by (auto split: sum.splits)
  from has_shape_update[OF Cons.prems(2) broadcast_row_length[OF row]]
  have "has_shape nc ns nb (list_update cube i (list_update (cube ! i) j row))" .
  from Cons.IH[OF rest this] show ?case .
qed

lemma fill_channels_shape:
  assumes "fill_channels nb i cs cube = Inr cube'" and "has_shape nc ns nb cube"
  shows "has_shape nc ns nb cube'"
  using assms
proof (induction cs arbitrary: i cube)
  case Nil
  then show ?case by simp
next
  case (Cons c cs)
  from Cons.prems(1) obtain cube1 where one: "fill_samples nb i 0 (c_samples c) cube = Inr cube1"
    and rest: "fill_channels nb (Suc i) cs cube1 = Inr cube'"
    by (auto split: sum.splits)
  from Cons.IH[OF rest fill_samples_shape[OF one Cons.prems(2)]] show ?case .
qed

lemma fold_max_init: "(a::nat) \<le> fold max xs a"
proof (induction xs arbitrary: a)
  case Nil
  then show ?case by simp
next
  case (Cons y ys)
  have "a \<le> max y a" by simp
  also have "\<dots> \<le> fold max ys (max y a)" by (rule Cons.IH)
  finally show ?case by simp
qed

lemma fold_max_ge: "x \<in> set xs \<Longrightarrow> (x::nat) \<le> fold max xs a"
proof (induction xs arbitrary: a)
  case Nil
  then show ?case by simp
next
  case (Cons y ys)
  show ?case
  proof (cases "x = y")
    case True
    have "x \<le> max y a" using True by simp
    also have "\<dots> \<le> fold max ys (max y a)" by (rule fold_max_init)
    finally show ?thesis by simp
  next
    case False
    with Cons.prems have "x \<in> set ys" by simp
    from Cons.IH[OF this] show ?thesis by simp
  qed
qed

lemma make_cube_shape:
  assumes "make_cube spec = Inr cube"
  shows "has_shape (length spec) (maxsamp_of spec) (maxbins_of spec) cube"
    and "shape cube = (length spec, maxsamp_of spec, maxbins_of spec)"
    and "0 < length spec"
proof -
  from assms have ne: "spec \<noteq> []"
    and ne2: "concat (map (\<lambda>c. map (\<lambda>s. length (s_data s)) (c_samples c)) spec) \<noteq> []"
    and fill: "fill_channels (maxbins_of spec) 0 spec
                 (full (length spec) (maxsamp_of spec) (maxbins_of spec) NaN) = Inr cube"
    by (auto simp: make_cube_def py_max_def maxsamp_of_def maxbins_of_def Let_def
             split: if_splits sum.splits)
  from fill_channels_shape[OF fill has_shape_full]
  show 1: "has_shape (length spec) (maxsamp_of spec) (maxbins_of spec) cube" .
  from ne show 2: "0 < length spec" by simp
  from ne2 obtain c where c: "c \<in> set spec" "c_samples c \<noteq> []" by auto
  then have "length (c_samples c) \<le> maxsamp_of spec"
    unfolding maxsamp_of_def by (intro fold_max_ge) auto
  with c have "0 < maxsamp_of spec" by (cases "c_samples c") auto
  from shape_of_has_shape[OF 1 2 this]
  show "shape cube = (length spec, maxsamp_of spec, maxbins_of spec)" .
qed

lemma has_shape_iff_nth:
  "has_shape nc ns nb F \<longleftrightarrow>
     length F = nc \<and> (\<forall>c<nc. length (F ! c) = ns \<and> (\<forall>s<ns. length (F ! c ! s) = nb))"
  by (auto simp: has_shape_def all_set_conv_all_nth)

lemma ops_shape_lengths:
  assumes "ops_shape n nc ns nb ops" and "opc < 2"
  shows "length ops = 2" and "length (ops ! opc) = n"
    and "m < n \<Longrightarrow> length (ops ! opc ! m) = nc"
    and "m < n \<Longrightarrow> c < nc \<Longrightarrow> length (ops ! opc ! m ! c) = ns"
    and "m < n \<Longrightarrow> c < nc \<Longrightarrow> s < ns \<Longrightarrow> length (ops ! opc ! m ! c ! s) = nb"
  using assms by (auto simp: ops_shape_def has_shape_iff_nth)

lemma assign_slot_in_range:
  assumes "ops_shape n nc ns nb ops"
  shows "(\<exists>e. assign_slot nb ops idx r = Inl e \<and> e = IndexError) \<longleftrightarrow> \<not> in_range n nc ns idx"
proof -
  obtain opc m c s where idx: "idx = (opc, m, c, s)" by (cases idx) auto
  show ?thesis
  proof (cases "in_range n nc ns idx")
    case True
    with idx assms show ?thesis
      by (auto simp: assign_slot_def in_range_def ops_shape_lengths broadcast_row_def
               split: sum.splits)
  next
    case False
    from assms have l: "length ops = 2" by (simp add: ops_shape_def)
    have "\<not> (opc < length ops \<and> m < length (ops ! opc) \<and> c < length (ops ! opc ! m) \<and>
               s < length (ops ! opc ! m ! c))"
    proof
      assume a: "opc < length ops \<and> m < length (ops ! opc) \<and> c < length (ops ! opc ! m) \<and>
               s < length (ops ! opc ! m ! c)"
      with l have o: "opc < 2" by simp
      from a ops_shape_lengths(2)[OF assms o] have m: "m < n" by simp
      from a ops_shape_lengths(3)[OF assms o m] have c: "c < nc" by simp
      from a ops_shape_lengths(4)[OF assms o m c] have "s < ns" by simp
      with o m c False idx show False by (simp add: in_range_def)
    qed
    with idx False show ?thesis by (simp add: assign_slot_def)
  qed
qed

lemma assign_slot_result:
  assumes "ops_shape n nc ns nb ops" and "in_range n nc ns idx"
    and "broadcast_row nb r = Inr row"
  shows "assign_slot nb ops idx r = Inr (case idx of (opc, m, c, s) \<Rightarrow>
           list_update ops opc (list_update (ops ! opc) m
             (list_update (ops ! opc ! m) c (list_update (ops ! opc ! m ! c) s row))))"
  using assms
  by (cases idx) (auto simp: assign_slot_def in_range_def ops_shape_lengths)

lemma assign_slot_shape:
  assumes "ops_shape n nc ns nb ops" and "assign_slot nb ops idx r = Inr ops'"
  shows "ops_shape n nc ns nb ops'"
proof -
  obtain opc m c s where idx: "idx = (opc, m, c, s)" by (cases idx) auto
  from assms(2) idx obtain row where row: "broadcast_row nb r = Inr row"
    and ops': "ops' = list_update ops opc (list_update (ops ! opc) m
             (list_update (ops ! opc ! m) c (list_update (ops ! opc ! m ! c) s row)))"
    and rng: "opc < length ops" "m < length (ops ! opc)" "c < length (ops ! opc ! m)"
      "s < length (ops ! opc ! m ! c)"
    by (auto simp: assign_slot_def split: if_splits sum.splits)
  from rng assms(1) have o: "opc < 2" by (simp add: ops_shape_def)
  note L = ops_shape_lengths[OF assms(1)]
  from rng L(2)[OF o] have m: "m < n" by simp
  from rng L(3)[OF o m] have c: "c < nc" by simp
  have lr: "length row = nb" using row by (rule broadcast_row_length)
  have old: "has_shape nc ns nb (ops ! opc ! m)"
    using assms(1) o m by (simp add: ops_shape_def)
  have new: "has_shape nc ns nb (list_update (ops ! opc ! m) c (list_update (ops ! opc ! m ! c) s row))"
    using has_shape_update[OF old lr] .
  show ?thesis
    unfolding ops_shape_def ops'
  proof (intro conjI allI impI)
    show "length (list_update ops opc (list_update (ops ! opc) m
             (list_update (ops ! opc ! m) c (list_update (ops ! opc ! m ! c) s row)))) = 2"
      using L(1)[OF o] by simp
  next
    fix o' :: nat assume o': "o' < 2"
    show "length (list_update ops opc (list_update (ops ! opc) m
             (list_update (ops ! opc ! m) c (list_update (ops ! opc ! m ! c) s row))) ! o') = n"
      using L(1)[OF o] L(2)[OF o'] L(2)[OF o] o o' by (simp add: nth_list_update)
  next
    fix o' m' :: nat assume o': "o' < 2" and m': "m' < n"
    have "has_shape nc ns nb (ops ! o' ! m')"
      using assms(1) o' m' by (simp add: ops_shape_def)
    with new show "has_shape nc ns nb (list_update ops opc (list_update (ops ! opc) m
             (list_update (ops ! opc ! m) c (list_update (ops ! opc ! m ! c) s row))) ! o' ! m')"
      using L(1)[OF o] L(2)[OF o'] L(2)[OF o] o o' m m' by (auto simp: nth_list_update)
  qed
qed

lemma assign_slot_get:
  assumes "ops_shape n nc ns nb ops" and "assign_slot nb ops idx r = Inr ops'"
    and "in_range n nc ns idx'"
  shows "\<exists>row. broadcast_row nb r = Inr row \<and>
           get_row ops' idx' = (if idx' = idx then row else get_row ops idx')"
proof -
  obtain opc m c s where idx: "idx = (opc, m, c, s)" by (cases idx) auto
  obtain o' m' c' s' where idx': "idx' = (o', m', c', s')" by (cases idx') auto
  from assms(2) idx obtain row where row: "broadcast_row nb r = Inr row"
    and ops': "ops' = list_update ops opc (list_update (ops ! opc) m
             (list_update (ops ! opc ! m) c (list_update (ops ! opc ! m ! c) s row)))"
    and rng: "opc < length ops" "m < length (ops ! opc)" "c < length (ops ! opc ! m)"
      "s < length (ops ! opc ! m ! c)"
    by (auto simp: assign_slot_def split: if_splits sum.splits)
  from assms(3) idx' have r': "o' < 2" "m' < n" "c' < nc" "s' < ns"
    by (simp_all add: in_range_def)
  note L = ops_shape_lengths[OF assms(1)]
  from rng assms(1) have o: "opc < 2" by (simp add: ops_shape_def)
  have "get_row ops' idx' = (if idx' = idx then row else get_row ops idx')"
    unfolding ops' idx idx' get_row_def
    using rng r' L(1)[OF o] L(2)[OF r'(1)] L(3)[OF r'(1,2)] L(4)[OF r'(1,2,3)]
    by (auto simp: nth_list_update)
  with row show ?thesis by blast
qed

lemma broadcast_row_nth:
  assumes "broadcast_row nb r = Inr row" and "b < nb"
  shows "row ! b = broadcast_at nb r b"
  using assms by (auto simp: broadcast_row_def broadcast_at_def split: if_splits)

lemma assign_all_get:
  assumes "assign_all nb ri ops = Inr ops'" and "ops_shape n nc ns nb ops"
  shows "ops_shape n nc ns nb ops' \<and>
         (\<forall>idx b. in_range n nc ns idx \<and> b < nb \<longrightarrow>
            get_row ops' idx ! b =
              (case map_of (rev ri) idx of
                 None \<Rightarrow> get_row ops idx ! b
               | Some r \<Rightarrow> broadcast_at nb r b))"
  using assms
proof (induction ri arbitrary: ops)
  case Nil
  then show ?case by simp
next
  case (Cons p ri)
  obtain i0 r0 where p: "p = (i0, r0)" by (cases p) auto
  from Cons.prems(1) p obtain ops1 where one: "assign_slot nb ops i0 r0 = Inr ops1"
    and rest: "assign_all nb ri ops1 = Inr ops'"
    by (auto split: sum.splits)
  have sh1: "ops_shape n nc ns nb ops1"
    using assign_slot_shape[OF Cons.prems(2) one] .
  from Cons.IH[OF rest sh1] have sh': "ops_shape n nc ns nb ops'"
    and ih: "\<And>idx b. in_range n nc ns idx \<Longrightarrow> b < nb \<Longrightarrow>
            get_row ops' idx ! b =
              (case map_of (rev ri) idx of
                 None \<Rightarrow> get_row ops1 idx ! b
               | Some r \<Rightarrow> broadcast_at nb r b)"
    by auto
  have "get_row ops' idx ! b =
          (case map_of (rev (p # ri)) idx of
             None \<Rightarrow> get_row ops idx ! b
           | Some r \<Rightarrow> broadcast_at nb r b)"
    if rng: "in_range n nc ns idx" and b: "b < nb" for idx b
  proof (cases "map_of (rev ri) idx")
    case (Some r)
    then have "map_of (rev (p # ri)) idx = Some r"
      by (simp add: map_add_def)
    with ih[OF rng b] Some show ?thesis by simp
  next
    case None
    from assign_slot_get[OF Cons.prems(2) one rng] obtain row where
      row: "broadcast_row nb r0 = Inr row"
      and g: "get_row ops1 idx = (if idx = i0 then row else get_row ops idx)"
      by blast
    from None p have m: "map_of (rev (p # ri)) idx = (if idx = i0 then Some r0 else None)"
      by (simp add: map_add_def)
    from ih[OF rng b] None have "get_row ops' idx ! b = get_row ops1 idx ! b" by simp
    with g m broadcast_row_nth[OF row b] show ?thesis by simp
  qed
  with sh' show ?case by blast
qed

lemma assign_all_total:
  assumes "ops_shape n nc ns nb ops" and "valid_result_index n nc ns nb ri"
  shows "\<exists>ops'. assign_all nb ri ops = Inr ops'"
  using assms
proof (induction ri arbitrary: ops)
  case Nil
  then show ?case by simp
next
  case (Cons p ri)
  obtain i0 r0 where p: "p = (i0, r0)" by (cases p) auto
  from Cons.prems(2) p have rng: "in_range n nc ns i0" and len: "length r0 = nb \<or> length r0 = 1"
    and rest: "valid_result_index n nc ns nb ri"
    by (auto simp: valid_result_index_def)
  from len have "\<exists>row. broadcast_row nb r0 = Inr row"
    by (cases "length r0 = nb") (simp_all add: broadcast_row_def)
  then obtain row where row: "broadcast_row nb r0 = Inr row" ..
  from assign_slot_result[OF Cons.prems(1) rng row] obtain ops1 where
    one: "assign_slot nb ops i0 r0 = Inr ops1" by blast
  from Cons.IH[OF assign_slot_shape[OF Cons.prems(1) one] rest] one p
  show ?case by simp
qed

lemma initial_ops_shape:
  "ops_shape n nc ns nb [replicate n (full nc ns nb (Fin 1)), replicate n (full nc ns nb (Fin 0))]"
  by (auto simp: ops_shape_def has_shape_full less_Suc_eq numeral_2_eq_2)

lemma initial_ops_get:
  assumes "in_range n nc ns idx" and "b < nb"
  shows "get_row [replicate n (full nc ns nb (Fin 1)), replicate n (full nc ns nb (Fin 0))] idx ! b =
         (if fst idx = 0 then Fin 1 else Fin 0)"
  using assms
  by (cases idx) (auto simp: get_row_def in_range_def full_def less_Suc_eq numeral_2_eq_2)

lemma assign_all_contribution:
  assumes "assign_all nb ri [replicate n (full nc ns nb (Fin 1)),
                             replicate n (full nc ns nb (Fin 0))] = Inr ops'"
    and "in_range n nc ns idx" and "b < nb"
  shows "get_row ops' idx ! b = contribution nb ri idx b"
proof -
  from assign_all_get[OF assms(1) initial_ops_shape] assms(2,3)
  have "get_row ops' idx ! b =
      (case map_of (rev ri) idx of
         None \<Rightarrow> get_row [replicate n (full nc ns nb (Fin 1)),
                            replicate n (full nc ns nb (Fin 0))] idx ! b
       | Some r \<Rightarrow> broadcast_at nb r b)"
    by blast
  then show ?thesis
    unfolding contribution_def initial_ops_get[OF assms(2,3)] .
qed

lemma field_op_shape:
  assumes "has_shape nc ns nb A" and "has_shape nc ns nb B"
  shows "has_shape nc ns nb (map2 (map2 (map2 f)) A B)"
  using assms by (simp add: has_shape_iff_nth)

lemma field_op_nth:
  assumes "has_shape nc ns nb A" and "has_shape nc ns nb B"
    and "c < nc" and "s < ns" and "b < nb"
  shows "map2 (map2 (map2 f)) A B ! c ! s ! b = f (A ! c ! s ! b) (B ! c ! s ! b)"
  using assms by (simp add: has_shape_iff_nth)

lemma foldr_field_op:
  assumes "\<forall>F\<in>set Fs. has_shape nc ns nb F" and "has_shape nc ns nb E"
  shows "has_shape nc ns nb (foldr (map2 (map2 (map2 f))) Fs E) \<and>
         (\<forall>c s b. c < nc \<and> s < ns \<and> b < nb \<longrightarrow>
            foldr (map2 (map2 (map2 f))) Fs E ! c ! s ! b =
              foldr f (map (\<lambda>F. F ! c ! s ! b) Fs) (E ! c ! s ! b))"
  using assms(1)
proof (induction Fs)
  case Nil
  with assms(2) show ?case by simp
next
  case (Cons F Fs)
  then have F: "has_shape nc ns nb F"
    and ih: "has_shape nc ns nb (foldr (map2 (map2 (map2 f))) Fs E)"
      "\<And>c s b. c < nc \<Longrightarrow> s < ns \<Longrightarrow> b < nb \<Longrightarrow>
            foldr (map2 (map2 (map2 f))) Fs E ! c ! s ! b =
              foldr f (map (\<lambda>F. F ! c ! s ! b) Fs) (E ! c ! s ! b)"
    by auto
  show ?case
    using field_op_shape[OF F ih(1), of f] field_op_nth[OF F ih(1), where f = f] ih(2) by simp
qed

lemma full_nth: "c < nc \<Longrightarrow> s < ns \<Longrightarrow> b < nb \<Longrightarrow> full nc ns nb v ! c ! s ! b = v"
  by (simp add: full_def)

lemma np_sum_filter: "np_sum (filter (\<lambda>x. \<not> isnan x) xs) = Fin (sum_list (map contributes xs))"
proof (induction xs)
  case Nil
  then show ?case by (simp add: np_sum_def)
next
  case (Cons x xs)
  then show ?case by (cases x) (simp_all add: np_sum_def)
qed

lemma plane_by_index:
  assumes "length P = ns" and "\<forall>s<ns. length (P ! s) = nb"
  shows "P = map (\<lambda>s. map (\<lambda>b. P ! s ! b) [0..<nb]) [0..<ns]"
proof (rule nth_equalityI)
  show "length P = length (map (\<lambda>s. map (\<lambda>b. P ! s ! b) [0..<nb]) [0..<ns])"
    using assms(1) by simp
  fix s assume "s < length P"
  with assms have s: "s < ns" "length (P ! s) = nb" by auto
  have "P ! s = map (\<lambda>b. P ! s ! b) [0..<nb]"
    using s(2) by (intro nth_equalityI) simp_all
  with s(1) show "P ! s = map (\<lambda>s. map (\<lambda>b. P ! s ! b) [0..<nb]) [0..<ns] ! s"
    by simp
qed

lemma sum_plane:
  assumes "length P = ns" and "\<forall>s<ns. length (P ! s) = nb"
  shows "sum_list (map contributes (concat P)) =
         sum_list (map (\<lambda>s. sum_list (map (\<lambda>b. contributes (P ! s ! b)) [0..<nb])) [0..<ns])"
proof -
  have "sum_list (map contributes (concat P)) = sum_list (map (\<lambda>r. sum_list (map contributes r)) P)"
    by (induction P) simp_all
  also have "\<dots> = sum_list (map (\<lambda>r. sum_list (map contributes r))
      (map (\<lambda>s. map (\<lambda>b. P ! s ! b) [0..<nb]) [0..<ns]))"
    using plane_by_index[OF assms] by simp
  also have "\<dots> = sum_list (map (\<lambda>s. sum_list (map (\<lambda>b. contributes (P ! s ! b)) [0..<nb])) [0..<ns])"
    by (simp add: comp_def)
  finally show ?thesis .
qed

lemma stack_by_index:
  assumes "length Fs = n"
  shows "map (\<lambda>F. F ! c ! s ! b) Fs = map (\<lambda>m. Fs ! m ! c ! s ! b) [0..<n]"
  using assms by (intro nth_equalityI) simp_all

lemma field_mul_shape:
  "has_shape nc ns nb A \<Longrightarrow> has_shape nc ns nb B \<Longrightarrow> has_shape nc ns nb (field_mul A B)"
  unfolding field_mul_def by (rule field_op_shape)

lemma field_add_shape:
  "has_shape nc ns nb A \<Longrightarrow> has_shape nc ns nb B \<Longrightarrow> has_shape nc ns nb (field_add A B)"
  unfolding field_add_def by (rule field_op_shape)

lemma field_mul_nth:
  "has_shape nc ns nb A \<Longrightarrow> has_shape nc ns nb B \<Longrightarrow> c < nc \<Longrightarrow> s < ns \<Longrightarrow> b < nb \<Longrightarrow>
     field_mul A B ! c ! s ! b = fmul (A ! c ! s ! b) (B ! c ! s ! b)"
  unfolding field_mul_def by (rule field_op_nth)

lemma field_add_nth:
  "has_shape nc ns nb A \<Longrightarrow> has_shape nc ns nb B \<Longrightarrow> c < nc \<Longrightarrow> s < ns \<Longrightarrow> b < nb \<Longrightarrow>
     field_add A B ! c ! s ! b = fadd (A ! c ! s ! b) (B ! c ! s ! b)"
  unfolding field_add_def by (rule field_op_nth)

lemma reduced_shapes:
  assumes ops: "assign_all nb ri [replicate n (full nc ns nb (Fin 1)),
                                  replicate n (full nc ns nb (Fin 0))] = Inr ops'"
  shows "has_shape nc ns nb (foldr field_mul (ops' ! 0) (full nc ns nb (Fin 1)))"
    and "has_shape nc ns nb (foldr field_add (ops' ! 1) (full nc ns nb (Fin 0)))"
proof -
  from assign_all_get[OF ops initial_ops_shape] have sh: "ops_shape n nc ns nb ops'" by blast
  have all: "\<forall>F\<in>set (ops' ! opc). has_shape nc ns nb F" if "opc < 2" for opc
    using sh that by (auto simp: ops_shape_def all_set_conv_all_nth)
  show "has_shape nc ns nb (foldr field_mul (ops' ! 0) (full nc ns nb (Fin 1)))"
    using foldr_field_op[OF all[of 0] has_shape_full, of fmul "Fin 1"]
    by (simp add: field_mul_def)
  show "has_shape nc ns nb (foldr field_add (ops' ! 1) (full nc ns nb (Fin 0)))"
    using foldr_field_op[OF all[of 1] has_shape_full, of fadd "Fin 0"]
    by (simp add: field_add_def)
qed

lemma reduced_values:
  assumes ops: "assign_all nb ri [replicate n (full nc ns nb (Fin 1)),
                                  replicate n (full nc ns nb (Fin 0))] = Inr ops'"
    and c: "c < nc" and s: "s < ns" and b: "b < nb"
  shows "foldr field_mul (ops' ! 0) (full nc ns nb (Fin 1)) ! c ! s ! b =
           np_product (map (\<lambda>m. contribution nb ri (0, m, c, s) b) [0..<n])"
    and "foldr field_add (ops' ! 1) (full nc ns nb (Fin 0)) ! c ! s ! b =
           np_sum (map (\<lambda>m. contribution nb ri (1, m, c, s) b) [0..<n])"
proof -
  from assign_all_get[OF ops initial_ops_shape] have sh: "ops_shape n nc ns nb ops'" by blast
  have len: "length (ops' ! opc) = n" if "opc < 2" for opc
    using sh that by (simp add: ops_shape_def)
  have all: "\<forall>F\<in>set (ops' ! opc). has_shape nc ns nb F" if "opc < 2" for opc
    using sh that by (auto simp: ops_shape_def all_set_conv_all_nth)
  have val: "ops' ! opc ! m ! c ! s ! b = contribution nb ri (opc, m, c, s) b"
    if "opc < 2" "m < n" for opc m
    using assign_all_contribution[OF ops, of "(opc, m, c, s)" b] that c s b
    by (simp add: in_range_def get_row_def)
  have F: "foldr field_mul (ops' ! 0) (full nc ns nb (Fin 1)) ! c ! s ! b =
       foldr fmul (map (\<lambda>F. F ! c ! s ! b) (ops' ! 0)) (Fin 1)"
    using foldr_field_op[OF all[of 0] has_shape_full, of fmul "Fin 1"] c s b
    by (simp_all add: field_mul_def full_nth)
  have D: "foldr field_add (ops' ! 1) (full nc ns nb (Fin 0)) ! c ! s ! b =
       foldr fadd (map (\<lambda>F. F ! c ! s ! b) (ops' ! 1)) (Fin 0)"
    using foldr_field_op[OF all[of 1] has_shape_full, of fadd "Fin 0"] c s b
    by (simp_all add: field_add_def full_nth)
  have "map (\<lambda>F. F ! c ! s ! b) (ops' ! 0) = map (\<lambda>m. ops' ! 0 ! m ! c ! s ! b) [0..<n]"
    by (rule stack_by_index) (simp add: len)
  also have "\<dots> = map (\<lambda>m. contribution nb ri (0, m, c, s) b) [0..<n]"
    using val[of 0] by simp
  finally have "map (\<lambda>F. F ! c ! s ! b) (ops' ! 0) =
      map (\<lambda>m. contribution nb ri (0, m, c, s) b) [0..<n]" .
  with F show "foldr field_mul (ops' ! 0) (full nc ns nb (Fin 1)) ! c ! s ! b =
           np_product (map (\<lambda>m. contribution nb ri (0, m, c, s) b) [0..<n])"
    by (simp add: np_product_def)
  have "map (\<lambda>F. F ! c ! s ! b) (ops' ! 1) = map (\<lambda>m. ops' ! 1 ! m ! c ! s ! b) [0..<n]"
    by (rule stack_by_index) (simp add: len)
  also have "\<dots> = map (\<lambda>m. contribution nb ri (1, m, c, s) b) [0..<n]"
    using val[of 1] by simp
  finally have "map (\<lambda>F. F ! c ! s ! b) (ops' ! 1) =
      map (\<lambda>m. contribution nb ri (1, m, c, s) b) [0..<n]" .
  with D show "foldr field_add (ops' ! 1) (full nc ns nb (Fin 0)) ! c ! s ! b =
           np_sum (map (\<lambda>m. contribution nb ri (1, m, c, s) b) [0..<n])"
    by (simp add: np_sum_def)
qed

lemma sum_grid_cong:
  assumes "\<And>s b. s < ns \<Longrightarrow> b < nb \<Longrightarrow> f s b = g s b"
  shows "sum_list (map (\<lambda>s. sum_list (map (\<lambda>b. f s b) [0..<nb])) [0..<ns]) =
         (sum_list (map (\<lambda>s. sum_list (map (\<lambda>b. g s b) [0..<nb])) [0..<ns]) :: real)"
proof -
  have "map (\<lambda>s. sum_list (map (\<lambda>b. f s b) [0..<nb])) [0..<ns] =
        map (\<lambda>s. sum_list (map (\<lambda>b. g s b) [0..<nb])) [0..<ns]"
  proof (rule map_cong[OF refl])
    fix s assume "s \<in> set [0..<ns]"
    then have s: "s < ns" by simp
    have "map (\<lambda>b. f s b) [0..<nb] = map (\<lambda>b. g s b) [0..<nb]"
      by (rule map_cong[OF refl]) (simp add: assms[OF s])
    then show "sum_list (map (\<lambda>b. f s b) [0..<nb]) = sum_list (map (\<lambda>b. g s b) [0..<nb])"
      by (rule arg_cong)
  qed
  then show ?thesis by (rule arg_cong)
qed

lemma expected_actualdata_eq:
  assumes sh: "has_shape nc ns nb (m_cube self)" "shape (m_cube self) = (nc, ns, nb)"
    and nchan: "length (m_spec self) = nc"
    and ri: "make_result_index self combine pars = Inr (n, ri)"
    and valid: "valid_result_index n nc ns nb ri"
  shows "expected_actualdata self combine pars =
           Inr (map (\<lambda>c. Fin (channel_sum (m_cube self) n ri c)) [0..<nc])"
proof -
  let ?ops0 = "[replicate n (full nc ns nb (Fin 1)), replicate n (full nc ns nb (Fin 0))]"
  from assign_all_total[OF initial_ops_shape valid] obtain ops' where
    ops: "assign_all nb ri ?ops0 = Inr ops'" by blast
  let ?factor = "foldr field_mul (ops' ! 0) (full nc ns nb (Fin 1))"
  let ?delta = "foldr field_add (ops' ! 1) (full nc ns nb (Fin 0))"
  let ?combined = "field_mul ?factor (field_add ?delta (m_cube self))"
  have am: "all_modifications self combine pars = Inr (?factor, ?delta)"
    using ri sh(2) ops by (simp add: all_modifications_def Let_def)
  note S = reduced_shapes[OF ops]
  have inner: "has_shape nc ns nb (field_add ?delta (m_cube self))"
    using S(2) sh(1) by (rule field_add_shape)
  have cs: "has_shape nc ns nb ?combined"
    using S(1) inner by (rule field_mul_shape)
  have comb_at: "?combined ! c ! s ! b = combined_at (m_cube self) n ri c s b"
    if "c < nc" "s < ns" "b < nb" for c s b
  proof -
    note R = reduced_values[OF ops that]
    have e1: "?combined ! c ! s ! b =
        fmul (?factor ! c ! s ! b) (field_add ?delta (m_cube self) ! c ! s ! b)"
      using S(1) inner that by (rule field_mul_nth)
    have e2: "field_add ?delta (m_cube self) ! c ! s ! b =
        fadd (?delta ! c ! s ! b) (m_cube self ! c ! s ! b)"
      using S(2) sh(1) that by (rule field_add_nth)
    show ?thesis
      unfolding e1 e2 R combined_at_def sh(2) by simp
  qed
  have entry: "np_sum (filter (\<lambda>x. \<not> isnan x) (concat (?combined ! c))) =
      Fin (channel_sum (m_cube self) n ri c)" if c: "c < nc" for c
  proof -
    have l1: "length (?combined ! c) = ns"
      and l2: "\<forall>s<ns. length (?combined ! c ! s) = nb"
      using cs c by (simp_all add: has_shape_iff_nth)
    have "sum_list (map (\<lambda>s. sum_list (map (\<lambda>b. contributes (?combined ! c ! s ! b)) [0..<nb])) [0..<ns]) =
        sum_list (map (\<lambda>s. sum_list (map (\<lambda>b. contributes (combined_at (m_cube self) n ri c s b)) [0..<nb])) [0..<ns])"
      by (rule sum_grid_cong) (simp only: comb_at[OF c])
    then show ?thesis
      unfolding np_sum_filter sum_plane[OF l1 l2] channel_sum_def sh(2) by simp
  qed
  show ?thesis
    using am nchan entry by (simp add: expected_actualdata_def Let_def)
qed

lemma length_qualify_spec [simp]: "length (qualify_spec q spec) = length spec"
  by (simp add: qualify_spec_def)

lemma Model_parts:
  assumes "Model tensorlib registry spec poiname q = Inr self"
  shows "from_spec registry spec poiname q = Inr (m_config self)"
    and "m_spec self = qualify_spec q spec"
    and "make_cube (qualify_spec q spec) = Inr (m_cube self)"
    and "make_mod_index (qualify_spec q spec) = Inr (m_allmods self)"
    and "finalized_stats tensorlib (m_config self) = Inr (m_finalized_stats self)"
  using assms by (auto simp: Model_def Let_def split: sum.splits)

lemma Model_cube:
  assumes "Model tensorlib registry spec poiname q = Inr self"
  shows "\<exists>ns nb. has_shape (length spec) ns nb (m_cube self) \<and>
           shape (m_cube self) = (length spec, ns, nb) \<and> length (m_spec self) = length spec"
  using make_cube_shape[OF Model_parts(3)[OF assms]] Model_parts(2)[OF assms] by auto

lemma hepdata_model:
  "\<exists>self. Model tensorlib example_registry hepdata_like ''mu'' False = Inr self \<and>
     m_cube self = [[[Fin 12, Fin 11], [Fin 50, Fin 52]]] \<and>
     m_allmods self = [(''mu'', (''normfactor'', 0, 0)),
                       (''uncorr_bkguncrt'', (''shapesys'', 0, 1))] \<and>
     auxdata (m_config self) = [(50 / 3)\<^sup>2, (52 / 7)\<^sup>2]"
  by (simp add: Model_def example_defs hepdata_like_def Let_def make_cube_def py_max_def
      full_def broadcast_row_def make_mod_index_def factor_mods_def delta_mods_def
      qualify_spec_def finalized_stats_def par_map_keys_def)

lemmas channel_sum_eval = channel_sum_def combined_at_def shape_def contribution_def
  broadcast_at_def np_product_def np_sum_def






section \<open>Properties of the nominal cube\<close>

lemma broadcast_row_of:
  assumes "broadcast_row nb (map Fin (s_data s)) = Inr row"
  shows "row = row_of nb s" and "length (s_data s) = nb \<or> length (s_data s) = 1"
proof -
  have "hd (map Fin (s_data s)) = Fin (hd (s_data s))" if "length (s_data s) = 1"
    using that by (cases "s_data s") simp_all
  with assms show "row = row_of nb s"
    by (auto simp: broadcast_row_def row_of_def split: if_splits)
  from assms show "length (s_data s) = nb \<or> length (s_data s) = 1"
    by (auto simp: broadcast_row_def split: if_splits)
qed

lemma fill_samples_rows:
  assumes "fill_samples nb i j ss cube = Inr cube'" and "i < length cube"
    and "j + length ss \<le> length (cube ! i)"
  shows "length cube' = length cube \<and>
         (\<forall>i'. i' \<noteq> i \<longrightarrow> cube' ! i' = cube ! i') \<and>
         length (cube' ! i) = length (cube ! i) \<and>
         (\<forall>j'<length (cube ! i). cube' ! i ! j' =
            (if j \<le> j' \<and> j' < j + length ss then row_of nb (ss ! (j' - j))
             else cube ! i ! j')) \<and>
         (\<forall>s\<in>set ss. length (s_data s) = nb \<or> length (s_data s) = 1)"
  using assms
proof (induction ss arbitrary: j cube)
  case Nil
  then show ?case by auto
next
  case (Cons s ss)
  from Cons.prems(1) obtain row where row: "broadcast_row nb (map Fin (s_data s)) = Inr row"
    and rest: "fill_samples nb i (Suc j) ss (list_update cube i (list_update (cube ! i) j row)) = Inr cube'"
    by (auto split: sum.splits)
  let ?c1 = "list_update cube i (list_update (cube ! i) j row)"
  have c1: "length ?c1 = length cube" "?c1 ! i = list_update (cube ! i) j row"
    "\<And>i'. i' \<noteq> i \<Longrightarrow> ?c1 ! i' = cube ! i'"
    using Cons.prems(2) by simp_all
  have pre: "i < length ?c1" "Suc j + length ss \<le> length (?c1 ! i)"
    using Cons.prems(2,3) by simp_all
  note IH = Cons.IH[OF rest pre]
  from IH c1 have A: "length cube' = length cube"
    and B: "\<forall>i'. i' \<noteq> i \<longrightarrow> cube' ! i' = cube ! i'"
    and C: "length (cube' ! i) = length (cube ! i)"
    and E: "\<forall>s\<in>set ss. length (s_data s) = nb \<or> length (s_data s) = 1"
    by simp_all
  from IH c1 have D0: "\<forall>j'<length (cube ! i). cube' ! i ! j' =
            (if Suc j \<le> j' \<and> j' < Suc j + length ss then row_of nb (ss ! (j' - Suc j))
             else list_update (cube ! i) j row ! j')"
    by simp
  have D: "cube' ! i ! j' =
            (if j \<le> j' \<and> j' < j + length (s # ss) then row_of nb ((s # ss) ! (j' - j))
             else cube ! i ! j')" if j': "j' < length (cube ! i)" for j'
  proof (cases "j' = j")
    case True
    with D0 j' broadcast_row_of(1)[OF row] show ?thesis by simp
  next
    case False
    show ?thesis
    proof (cases "Suc j \<le> j' \<and> j' < Suc j + length ss")
      case True
      then have "j' - j = Suc (j' - Suc j)" by arith
      with True D0 j' show ?thesis by simp
    next
      case False2: False
      with False D0 j' show ?thesis by auto
    qed
  qed
  from A B C D E broadcast_row_of(2)[OF row] show ?case by simp
qed

lemma fill_channels_rows:
  assumes "fill_channels nb i cs cube = Inr cube'" and "i + length cs \<le> length cube"
    and "\<forall>c\<in>set cs. length (c_samples c) \<le> ns"
    and "\<forall>i'<length cube. length (cube ! i') = ns"
  shows "length cube' = length cube \<and>
         (\<forall>i'<length cube. length (cube' ! i') = ns \<and>
            (\<forall>j<ns. cube' ! i' ! j =
               (if i \<le> i' \<and> i' < i + length cs \<and> j < length (c_samples (cs ! (i' - i)))
                then row_of nb (c_samples (cs ! (i' - i)) ! j)
                else cube ! i' ! j))) \<and>
         (\<forall>c\<in>set cs. \<forall>s\<in>set (c_samples c). length (s_data s) = nb \<or> length (s_data s) = 1)"
  using assms
proof (induction cs arbitrary: i cube)
  case Nil
  then show ?case by auto
next
  case (Cons c cs)
  from Cons.prems(1) obtain cube1 where one: "fill_samples nb i 0 (c_samples c) cube = Inr cube1"
    and rest: "fill_channels nb (Suc i) cs cube1 = Inr cube'"
    by (auto split: sum.splits)
  from Cons.prems(2) have i: "i < length cube" by simp
  with Cons.prems(3,4) have fit: "0 + length (c_samples c) \<le> length (cube ! i)" by simp
  note S = fill_samples_rows[OF one i fit]
  from S have l1: "length cube1 = length cube" by simp
  from S have other: "\<And>i'. i' \<noteq> i \<Longrightarrow> cube1 ! i' = cube ! i'" by simp
  from S Cons.prems(4) i have li: "length (cube1 ! i) = ns" by simp
  from S Cons.prems(4) i have rows: "\<And>j. j < ns \<Longrightarrow> cube1 ! i ! j =
      (if j < length (c_samples c) then row_of nb (c_samples c ! j) else cube ! i ! j)"
    by simp
  from S have bins: "\<forall>s\<in>set (c_samples c). length (s_data s) = nb \<or> length (s_data s) = 1"
    by simp
  have pre: "Suc i + length cs \<le> length cube1" "\<forall>c\<in>set cs. length (c_samples c) \<le> ns"
    "\<forall>i'<length cube1. length (cube1 ! i') = ns"
    using Cons.prems(2,3,4) l1 other li by (simp_all, metis)
  note IH = Cons.IH[OF rest pre]
  from IH l1 have A: "length cube' = length cube" by simp
  from IH have E: "\<forall>c\<in>set cs. \<forall>s\<in>set (c_samples c). length (s_data s) = nb \<or> length (s_data s) = 1"
    by simp
  have B: "length (cube' ! i') = ns \<and>
            (\<forall>j<ns. cube' ! i' ! j =
               (if i \<le> i' \<and> i' < i + length (c # cs) \<and> j < length (c_samples ((c # cs) ! (i' - i)))
                then row_of nb (c_samples ((c # cs) ! (i' - i)) ! j)
                else cube ! i' ! j))" if i': "i' < length cube" for i'
  proof -
    from IH i' l1 have len: "length (cube' ! i') = ns"
      and ent: "\<And>j. j < ns \<Longrightarrow> cube' ! i' ! j =
               (if Suc i \<le> i' \<and> i' < Suc i + length cs \<and> j < length (c_samples (cs ! (i' - Suc i)))
                then row_of nb (c_samples (cs ! (i' - Suc i)) ! j)
                else cube1 ! i' ! j)"
      by simp_all
    have "cube' ! i' ! j =
               (if i \<le> i' \<and> i' < i + length (c # cs) \<and> j < length (c_samples ((c # cs) ! (i' - i)))
                then row_of nb (c_samples ((c # cs) ! (i' - i)) ! j)
                else cube ! i' ! j)" if j: "j < ns" for j
    proof (cases "i' = i")
      case True
      with ent[OF j] rows[OF j] show ?thesis by simp
    next
      case False
      show ?thesis
      proof (cases "Suc i \<le> i' \<and> i' < Suc i + length cs")
        case True
        then have "i' - i = Suc (i' - Suc i)" by arith
        with True ent[OF j] other[OF False] show ?thesis by simp
      next
        case F2: False
        with False ent[OF j] other[OF False] show ?thesis by auto
      qed
    qed
    with len show ?thesis by simp
  qed
  from A B E bins show ?case by simp
qed

lemma make_cube_entries:
  assumes "make_cube spec = Inr cube"
  shows "(\<forall>i<length spec. \<forall>j<maxsamp_of spec. cube ! i ! j =
            (if j < length (c_samples (spec ! i))
             then row_of (maxbins_of spec) (c_samples (spec ! i) ! j)
             else replicate (maxbins_of spec) NaN)) \<and>
         (\<forall>c\<in>set spec. \<forall>s\<in>set (c_samples c).
            length (s_data s) = maxbins_of spec \<or> length (s_data s) = 1)"
proof -
  let ?nan = "full (length spec) (maxsamp_of spec) (maxbins_of spec) NaN"
  from assms have fill: "fill_channels (maxbins_of spec) 0 spec ?nan = Inr cube"
    by (auto simp: make_cube_def py_max_def maxsamp_of_def maxbins_of_def Let_def
             split: if_splits sum.splits)
  have pre: "0 + length spec \<le> length ?nan"
    "\<forall>c\<in>set spec. length (c_samples c) \<le> maxsamp_of spec"
    "\<forall>i'<length ?nan. length (?nan ! i') = maxsamp_of spec"
    unfolding maxsamp_of_def by (auto simp: full_def intro!: fold_max_ge)
  from fill_channels_rows[OF fill pre] show ?thesis
    by (simp add: full_def)
qed

lemma fewer_samples_padded:
  "make_cube fewer_samples =
     Inr [[[Fin 12, Fin 11], [Fin 50, Fin 52]], [[Fin 30, Fin 31], [NaN, NaN]]]"
  by (simp add: make_cube_def fewer_samples_def py_max_def full_def broadcast_row_def)

lemma nan_slot_contributes_nothing:
  assumes "cube ! c ! s ! b = NaN"
  shows "contributes (combined_at cube n ri c s b) = 0"
proof -
  have "fmul x (fadd y NaN) = NaN" for x y
    by (cases x; cases y) simp_all
  with assms show ?thesis
    by (simp add: combined_at_def split: prod.splits)
qed

section \<open>Properties of the log-likelihood\<close>

lemma fmul_one [simp]: "fmul x (Fin 1) = x"
  by (cases x) simp_all

lemma aux_count:
  assumes "\<forall>m\<in>set objs. is_constrained m \<longrightarrow> length (m_auxdata m) = n_parameters m"
  shows "length (concat (map (\<lambda>m. if is_constrained m then m_auxdata m else []) objs)) =
         sum_list (map n_parameters (filter is_constrained objs))"
  using assms by (induction objs) auto

lemma split_data_eq:
  assumes "length (auxdata (m_config self)) \<le> length data"
  shows "split_data self data =
           (take (length data - length (auxdata (m_config self))) data,
            drop (length data - length (auxdata (m_config self))) data)"
proof -
  from assms have "nat (int (length data) - int (length (auxdata (m_config self)))) =
      length data - length (auxdata (m_config self))" by simp
  moreover from assms have "\<not> int (length data) - int (length (auxdata (m_config self))) < 0"
    by simp
  ultimately show ?thesis
    by (simp add: split_data_def slice_to_def slice_from_def Let_def)
qed

lemma hepdata_expected:
  assumes cube: "m_cube self = [[[Fin 12, Fin 11], [Fin 50, Fin 52]]]"
    and mods: "m_allmods self = [(''mu'', (''normfactor'', 0, 0)),
                       (''uncorr_bkguncrt'', (''shapesys'', 0, 1))]"
    and len: "length (m_spec self) = 1"
  shows "expected_actualdata self hepdata_combine [mu, g1, g2] =
           Inr [Fin (mu * 12 + mu * 11 + (g1 * 50 + g2 * 52))]"
proof -
  let ?ri = "[((0, 0, 0, 0), [Fin mu, Fin mu]), ((0, 1, 0, 1), [Fin g1, Fin g2])] :: result_index"
  have ri: "make_result_index self hepdata_combine [mu, g1, g2] = Inr (2, ?ri)"
    by (simp add: make_result_index_def mods hepdata_combine_def combined_types_def
        trivial_types_def)
  have sh: "has_shape 1 2 2 (m_cube self)" "shape (m_cube self) = (1, 2, 2)"
    by (simp_all add: cube has_shape_def shape_def)
  have v: "valid_result_index 2 1 2 2 ?ri"
    by (simp add: valid_result_index_def in_range_def)
  have "channel_sum (m_cube self) 2 ?ri 0 = mu * 12 + mu * 11 + (g1 * 50 + g2 * 52)"
    by (simp add: channel_sum_eval cube upt_rec[of 0] upt_rec[of 1] upt_rec[of "Suc 0"])
  with expected_actualdata_eq[OF sh len ri v] show ?thesis by simp
qed

text \<open>
  The keys of \<^verbatim>\<open>finalized_stats\<close>, and two ways in which the loop of
  \<^verbatim>\<open>constraint_logpdf\<close> raises: a modifier with a normal constraint whose class is none
  of \<^verbatim>\<open>histosys\<close>, \<^verbatim>\<open>normsys\<close> and \<^verbatim>\<open>staterror\<close> leaves \<^verbatim>\<open>kwargs\<close> unassigned in the
  first iteration, and a modifier of class \<^verbatim>\<open>staterror\<close> whose name has no entry in
  \<^verbatim>\<open>finalized_stats\<close> fails the lookup.
\<close>

lemma finalized_stats_keys:
  assumes "finalized_stats_loop tensorlib self ks stats = Inr stats'"
  shows "dom stats' = dom stats \<union> {k \<in> set ks. py_in ''staterror'' k}"
  using assms
proof (induction ks arbitrary: stats)
  case Nil
  then show ?case by simp
next
  case (Cons k ks)
  show ?case
  proof (cases "py_in ''staterror'' k")
    case True
    with Cons.prems obtain r s where
      "finalized_stats_loop tensorlib self ks (stats(k \<mapsto> s)) = Inr stats'"
      by (auto split: sum.splits)
    from Cons.IH[OF this] True show ?thesis by (auto split: if_splits)
  next
    case False
    with Cons.prems have "finalized_stats_loop tensorlib self ks stats = Inr stats'" by simp
    from Cons.IH[OF this] False show ?thesis by auto
  qed
qed

lemma constraint_unassigned_kwargs:
  assumes "modifier_ref (m_config self) cname = Inr r"
    and "par_slice (m_config self) cname = Inr sl"
    and "alphas (objects (m_config self) ! r) = Some f"
    and "pdf_type (objects (m_config self) ! r) = Some ''normal''"
    and "type_name (objects (m_config self) ! r) \<notin> {''histosys'', ''normsys'', ''staterror''}"
  shows "constraint_loop self aux_data pars (cname # rest) start_index Unassigned bytype =
           Inl UnboundLocalError"
  using assms by (cases sl) (simp add: assign_kwargs_def Let_def)

lemma constraint_missing_stats:
  assumes "modifier_ref (m_config self) cname = Inr r"
    and "par_slice (m_config self) cname = Inr sl"
    and "alphas (objects (m_config self) ! r) = Some f"
    and "pdf_type (objects (m_config self) ! r) = Some ''normal''"
    and "type_name (objects (m_config self) ! r) = ''staterror''"
    and "m_finalized_stats self cname = None"
  shows "constraint_loop self aux_data pars (cname # rest) start_index kwargs bytype =
           Inl KeyError"
  using assms by (cases sl) (simp add: assign_kwargs_def Let_def)

text \<open>
  The model \<open>normsys_like\<close> and the model of the test fixture, evaluated. On the
  fixture the constraint term raises with the stand-in backend: the modifier
  \<^verbatim>\<open>shapesys\<close> has a Poisson constraint, for which \<^verbatim>\<open>kwargs\<close> is empty and the third
  call argument is the empty list.
\<close>

lemma normsys_model:
  "\<exists>self. Model tensorlib example_registry normsys_like ''mu'' False = Inr self \<and>
     m_cube self = [[[Fin 12, Fin 11], [Fin 50, Fin 52]]] \<and>
     m_allmods self = [(''mu'', (''normfactor'', 0, 0)), (''lumi'', (''normsys'', 0, 1))] \<and>
     auxdata (m_config self) = [0] \<and> auxdata_order (m_config self) = [''lumi''] \<and>
     modifier_ref (m_config self) ''lumi'' = Inr 1 \<and>
     par_slice (m_config self) ''lumi'' = Inr (1, 2) \<and>
     map type_name (objects (m_config self)) = [''normfactor'', ''normsys''] \<and>
     map pdf_type (objects (m_config self)) = [None, Some ''normal''] \<and>
     map alphas (objects (m_config self)) = [None, Some (map Fin)] \<and>
     map is_constrained (objects (m_config self)) = [False, True] \<and>
     map n_parameters (objects (m_config self)) = [1, 1] \<and>
     map m_auxdata (objects (m_config self)) = [[], [0]]"
  by (simp add: Model_def example_defs normsys_like_def Let_def make_cube_def py_max_def
      full_def broadcast_row_def make_mod_index_def factor_mods_def delta_mods_def
      qualify_spec_def finalized_stats_def par_map_keys_def)

lemma normsys_expected:
  assumes cube: "m_cube self = [[[Fin 12, Fin 11], [Fin 50, Fin 52]]]"
    and mods: "m_allmods self = [(''mu'', (''normfactor'', 0, 0)), (''lumi'', (''normsys'', 0, 1))]"
    and len: "length (m_spec self) = 1"
  shows "expected_actualdata self normsys_combine [mu, alpha] =
           Inr [Fin (mu * 12 + mu * 11 + ((1 + alpha) * 50 + (1 + alpha) * 52))]"
proof -
  let ?ri = "[((0, 0, 0, 0), [Fin mu, Fin mu]),
              ((0, 1, 0, 1), [Fin (1 + alpha), Fin (1 + alpha)])] :: result_index"
  have ri: "make_result_index self normsys_combine [mu, alpha] = Inr (2, ?ri)"
    by (simp add: make_result_index_def mods normsys_combine_def combined_types_def
        trivial_types_def)
  have sh: "has_shape 1 2 2 (m_cube self)" "shape (m_cube self) = (1, 2, 2)"
    by (simp_all add: cube has_shape_def shape_def)
  have v: "valid_result_index 2 1 2 2 ?ri"
    by (simp add: valid_result_index_def in_range_def)
  have "channel_sum (m_cube self) 2 ?ri 0 =
      mu * 12 + mu * 11 + ((1 + alpha) * 50 + (1 + alpha) * 52)"
    by (simp add: channel_sum_eval cube upt_rec[of 0] upt_rec[of 1] upt_rec[of "Suc 0"])
  with expected_actualdata_eq[OF sh len ri v] show ?thesis by simp
qed

lemma normsys_constraint:
  assumes "auxdata_order (m_config self) = [''lumi'']"
    and "modifier_ref (m_config self) ''lumi'' = Inr 1"
    and "par_slice (m_config self) ''lumi'' = Inr (1, 2)"
    and "type_name (objects (m_config self) ! 1) = ''normsys''"
    and "pdf_type (objects (m_config self) ! 1) = Some ''normal''"
    and "alphas (objects (m_config self) ! 1) = Some (map Fin)"
  shows "constraint_logpdf stand_in_backend self [x] [mu, alpha] = Inr (Fin (x + alpha))"
  using assms
  by (simp add: constraint_logpdf_def assign_kwargs_def py_slice_def setdefault_append_def
      calculate_constraint_def stand_in_backend_def rectangular_def stand_in_normal_def
      np_sum_def)

lemma hepdata_constrained:
  "\<exists>self. Model tensorlib example_registry hepdata_like ''mu'' False = Inr self \<and>
     m_cube self = [[[Fin 12, Fin 11], [Fin 50, Fin 52]]] \<and>
     m_allmods self = [(''mu'', (''normfactor'', 0, 0)),
                       (''uncorr_bkguncrt'', (''shapesys'', 0, 1))] \<and>
     auxdata (m_config self) = [(50 / 3)\<^sup>2, (52 / 7)\<^sup>2] \<and>
     auxdata_order (m_config self) = [''uncorr_bkguncrt''] \<and>
     modifier_ref (m_config self) ''uncorr_bkguncrt'' = Inr 1 \<and>
     par_slice (m_config self) ''uncorr_bkguncrt'' = Inr (1, 3) \<and>
     map pdf_type (objects (m_config self)) = [None, Some ''poisson''] \<and>
     map (\<lambda>m. map_option (\<lambda>f. f [1, 1]) (alphas m)) (objects (m_config self)) =
       [None, Some [Fin ((50 / 3)\<^sup>2), Fin ((52 / 7)\<^sup>2)]] \<and>
     map is_constrained (objects (m_config self)) = [False, True] \<and>
     map n_parameters (objects (m_config self)) = [1, 2]"
  by (simp add: Model_def example_defs hepdata_like_def Let_def make_cube_def py_max_def
      full_def broadcast_row_def make_mod_index_def factor_mods_def delta_mods_def
      qualify_spec_def finalized_stats_def par_map_keys_def)

lemma hepdata_fixture_raises:
  "\<exists>self. Model stand_in_backend example_registry hepdata_like ''mu'' False = Inr self \<and>
     expected_actualdata self hepdata_combine [1, 1, 1] = Inr [Fin 125] \<and>
     constraint_logpdf stand_in_backend self (auxdata (m_config self)) [1, 1, 1] =
       Inl ValueError \<and>
     logpdf stand_in_backend self hepdata_combine [1, 1, 1]
       ([51, 48] @ auxdata (m_config self)) = Inl ValueError"
proof -
  from hepdata_constrained[of stand_in_backend] obtain self where
    m: "Model stand_in_backend example_registry hepdata_like ''mu'' False = Inr self"
    and cube: "m_cube self = [[[Fin 12, Fin 11], [Fin 50, Fin 52]]]"
    and mods: "m_allmods self = [(''mu'', (''normfactor'', 0, 0)),
                       (''uncorr_bkguncrt'', (''shapesys'', 0, 1))]"
    and aux: "auxdata (m_config self) = [(50 / 3)\<^sup>2, (52 / 7)\<^sup>2]"
    and ao: "auxdata_order (m_config self) = [''uncorr_bkguncrt'']"
    and mr: "modifier_ref (m_config self) ''uncorr_bkguncrt'' = Inr 1"
    and ps: "par_slice (m_config self) ''uncorr_bkguncrt'' = Inr (1, 3)"
    and pt: "map pdf_type (objects (m_config self)) = [None, Some ''poisson'']"
    and al: "map (\<lambda>m. map_option (\<lambda>f. f [1, 1]) (alphas m)) (objects (m_config self)) =
       [None, Some [Fin ((50 / 3)\<^sup>2), Fin ((52 / 7)\<^sup>2)]]"
    by (elim exE conjE)
  from pt al obtain m1 m2 f where objs: "objects (m_config self) = [m1, m2]"
    and m2: "pdf_type m2 = Some ''poisson''" "alphas m2 = Some f"
      "f [1, 1] = [Fin ((50 / 3)\<^sup>2), Fin ((52 / 7)\<^sup>2)]"
    by (auto simp: map_eq_Cons_conv)
  from Model_parts(2)[OF m] have len: "length (m_spec self) = 1"
    by (simp add: hepdata_like_def)
  have e: "expected_actualdata self hepdata_combine [1, 1, 1] = Inr [Fin 125]"
    using hepdata_expected[OF cube mods len, of 1 1 1] by simp
  have c: "constraint_logpdf stand_in_backend self (auxdata (m_config self)) [1, 1, 1] =
      Inl ValueError"
    using ao mr ps objs m2
    by (simp add: constraint_logpdf_def assign_kwargs_def py_slice_def setdefault_append_def
        calculate_constraint_def stand_in_backend_def rectangular_def aux)
  have sp: "split_data self ([51, 48] @ auxdata (m_config self)) =
      ([51, 48], auxdata (m_config self))"
    by (simp add: split_data_def aux slice_to_def slice_from_def)
  have "logpdf stand_in_backend self hepdata_combine [1, 1, 1]
       ([51, 48] @ auxdata (m_config self)) = Inl ValueError"
    unfolding logpdf_def sp using e c
    by (simp add: stand_in_backend_def broadcast2_def)
  with m e c show ?thesis by (intro exI[of _ self] conjI)
qed

section \<open>Properties of the optimizer\<close>

lemma constrained_pars_eq: "constrained_pars mu nuis_cat = mu # nuis_cat"
  by (simp add: constrained_pars_def)

lemma nuisance_enumerate:
  "map snd (filter (\<lambda>(i, p). Some i \<noteq> Some (n + k)) (enumerate n xs)) =
     take k xs @ drop (Suc k) xs"
proof (induction xs arbitrary: n k)
  case Nil
  then show ?case by simp
next
  case (Cons x xs)
  show ?case
  proof (cases k)
    case 0
    have "filter (\<lambda>(i, p). Some i \<noteq> Some n) (enumerate (Suc n) xs) = enumerate (Suc n) xs"
      by (rule filter_True) (auto simp: in_set_enumerate_eq)
    with 0 show ?thesis by simp
  next
    case (Suc j)
    with Cons.IH[of "Suc n" j] show ?thesis by simp
  qed
qed

lemma nuisance_Some: "nuisance (Some k) xs = take k xs @ drop (Suc k) xs"
  using nuisance_enumerate[of 0 k xs] by (simp add: nuisance_def)

lemma newton_step_length:
  assumes "newton_step x up = Inr (x', stop)" and "length up = length x"
  shows "length x' = length x"
  using assms by (auto simp: newton_step_def np_sub_def split: sum.splits if_splits)

lemma newton_step_total:
  assumes "length up = length x" and "x \<noteq> []"
  shows "\<exists>x' stop. newton_step x up = Inr (x', stop)"
  using assms by (cases up) (auto simp: newton_step_def np_sub_def np_max_def)

lemma newton_constrained_result:
  assumes "newton_constrained k run (x, arr) i = Inr ((x', arr'), j)"
    and "\<forall>y up. length y = n \<and> run y = Inr up \<longrightarrow> length up = n"
    and "length x = n"
  shows "length x' = n \<and> j \<le> i + k \<and> (arr \<longrightarrow> arr')"
  using assms(1,3)
proof (induction k arbitrary: x arr i)
  case 0
  then show ?case by simp
next
  case (Suc k)
  show ?case
  proof (cases "run x")
    case (Inl e)
    with Suc.prems have "newton_constrained k run (x, arr) (Suc i) = Inr ((x', arr'), j)"
      by (simp split: if_splits)
    from Suc.IH[OF this Suc.prems(2)] show ?thesis by simp
  next
    case (Inr up)
    with assms(2) Suc.prems(2) have lu: "length up = length x" by simp
    from Suc.prems Inr obtain x1 stop where st: "newton_step x up = Inr (x1, stop)"
      by (auto split: sum.splits)
    from newton_step_length[OF st lu] Suc.prems(2) have l1: "length x1 = n" by simp
    show ?thesis
    proof (cases stop)
      case True
      with Suc.prems Inr st l1 show ?thesis by simp
    next
      case False
      with Suc.prems Inr st have "newton_constrained k run (x1, True) (Suc i) = Inr ((x', arr'), j)"
        by simp
      from Suc.IH[OF this l1] show ?thesis by simp
    qed
  qed
qed

lemma newton_constrained_total:
  assumes "\<forall>y. length y = n \<longrightarrow> (\<exists>up. run y = Inr up \<and> length up = length y)"
    and "length x = n" and "0 < n"
  shows "\<exists>x' j. newton_constrained (Suc k) run (x, arr) i = Inr ((x', True), j)"
  using assms(2)
proof (induction k arbitrary: x arr i)
  case 0
  from assms(1) 0 obtain up where up: "run x = Inr up" "length up = length x" by blast
  from 0 assms(3) have "x \<noteq> []" by auto
  from newton_step_total[OF up(2) this] obtain x1 stop where "newton_step x up = Inr (x1, stop)"
    by blast
  with up show ?case by simp
next
  case (Suc k)
  from assms(1) Suc.prems obtain up where up: "run x = Inr up" "length up = length x" by blast
  from Suc.prems assms(3) have "x \<noteq> []" by auto
  from newton_step_total[OF up(2) this] obtain x1 stop where st: "newton_step x up = Inr (x1, stop)"
    by blast
  from newton_step_length[OF st up(2)] Suc.prems have "length x1 = n" by simp
  from Suc.IH[OF this, of True "Suc i"] obtain x' j where
    "newton_constrained (Suc k) run (x1, True) (Suc i) = Inr ((x', True), j)" by blast
  with up st show ?case by (cases stop) simp_all
qed

lemma py_insert_props:
  assumes "k \<le> length xs"
  shows "length (py_insert k x xs) = Suc (length xs)" and "py_insert k x xs ! k = x"
    and "take k (py_insert k x xs) @ drop (Suc k) (py_insert k x xs) = xs"
  using assms by (simp_all add: py_insert_def nth_append min_absorb2)

lemma fit_nuisance_eq:
  assumes "poi_index (m_config pdf) = Some k"
  shows "fit_nuisance tf objective mu data pdf init_pars =
      newton_constrained 1000 (update tf (\<lambda>nuis. objective (mu # nuis) data pdf))
        (take k init_pars @ drop (Suc k) init_pars, False) 0"
  by (simp add: fit_nuisance_def assms nuisance_Some constrained_pars_eq)

lemma constrained_bestfit_cases:
  assumes "poi_index (m_config pdf) = Some k"
    and "constrained_bestfit tf objective mu data pdf init_pars bounds = Inr best_fit"
  shows "\<exists>nuis i.
           newton_constrained 1000 (update tf (\<lambda>nuis. objective (mu # nuis) data pdf))
             (take k init_pars @ drop (Suc k) init_pars, False) 0 = Inr ((nuis, True), i) \<and>
           best_fit = py_insert k mu nuis"
  using assms(2) fit_nuisance_eq[OF assms(1), of tf objective mu data init_pars]
  by (auto simp: constrained_bestfit_def assms(1) split: sum.splits if_splits)

lemma constrained_bestfit_returns:
  assumes "poi_index (m_config pdf) = Some k" and "k < length init_pars"
    and "1 < length init_pars"
    and "\<forall>x. length x = length init_pars - 1 \<longrightarrow>
           (\<exists>up. update tf (\<lambda>nuis. objective (mu # nuis) data pdf) x = Inr up \<and>
                  length up = length x)"
  shows "\<exists>best_fit. constrained_bestfit tf objective mu data pdf init_pars bounds = Inr best_fit"
proof -
  let ?run = "update tf (\<lambda>nuis. objective (mu # nuis) data pdf)"
  let ?n0 = "take k init_pars @ drop (Suc k) init_pars"
  have ln0: "length ?n0 = length init_pars - 1"
    using assms(2) by simp
  with assms(3) have "0 < length init_pars - 1" by simp
  from newton_constrained_total[OF assms(4) ln0 this, of 999 False 0] obtain x' j where
    "newton_constrained (Suc 999) ?run (?n0, False) 0 = Inr ((x', True), j)" by blast
  then have "newton_constrained 1000 ?run (?n0, False) 0 = Inr ((x', True), j)"
    by (simp add: eval_nat_numeral)
  with fit_nuisance_eq[OF assms(1), of tf objective mu data init_pars] show ?thesis
    by (simp add: constrained_bestfit_def assms(1))
qed

lemma quartic_update_ok: "\<exists>up. update quartic_tf f [x, y] = Inr up \<and> length up = 2"
proof -
  have "0 < 12 * x\<^sup>2 * (1 + regulariser) + regulariser"
    by (intro add_nonneg_pos mult_nonneg_nonneg) (simp_all add: regulariser_def)
  also have "12 * x\<^sup>2 * (1 + regulariser) + regulariser =
      (12 * x\<^sup>2 + regulariser) * (1 + regulariser) - (0 + regulariser) * (0 + regulariser)"
    by (simp add: algebra_simps)
  finally have "(12 * x\<^sup>2 + regulariser) * (1 + regulariser) -
      (0 + regulariser) * (0 + regulariser) \<noteq> 0" by simp
  then show ?thesis
    by (simp add: update_def quartic_tf_def regularised_def matvec_def)
qed

lemma quartic_update_total:
  "\<forall>x. length x = 2 \<longrightarrow> (\<exists>up. update quartic_tf f x = Inr up \<and> length up = length x)"
proof (intro allI impI)
  fix x :: "real list" assume "length x = 2"
  then obtain a b where "x = [a, b]"
    by (auto simp: length_Suc_conv numeral_2_eq_2)
  with quartic_update_ok[of f a b] show "\<exists>up. update quartic_tf f x = Inr up \<and> length up = length x"
    by (simp add: numeral_2_eq_2)
qed

lemma newton_unconstrained_iterations:
  "newton_unconstrained k run x i = Inr (best_fit, j) \<Longrightarrow> j \<le> i + k"
proof (induction k arbitrary: x i)
  case 0
  then show ?case by simp
next
  case (Suc k)
  from Suc.prems obtain up x1 stop where up: "run x = Inr up"
    and st: "newton_step x up = Inr (x1, stop)"
    by (auto split: sum.splits if_splits)
  show ?case
  proof (cases stop)
    case True
    with Suc.prems up st show ?thesis by simp
  next
    case False
    with Suc.prems up st have "newton_unconstrained k run x1 (Suc i) = Inr (best_fit, j)" by simp
    from Suc.IH[OF this] show ?thesis by simp
  qed
qed

lemma newton_unconstrained_break:
  assumes "run x = Inr up" and "newton_step x up = Inr (x', True)"
  shows "newton_unconstrained (Suc k) run x i = Inr (x', Suc i)"
  using assms by simp

lemma newton_constrained_continue:
  assumes "run x = Inr up" and "newton_step x up = Inr (x', False)"
  shows "newton_constrained (Suc k) run (x, arr) i = newton_constrained k run (x', True) (Suc i)"
  using assms by simp

lemma newton_constrained_break:
  assumes "run x = Inr up" and "newton_step x up = Inr (x', True)"
  shows "newton_constrained (Suc k) run (x, arr) i = Inr ((x', True), Suc i)"
  using assms by simp

lemma coupled_gradient:
  "difference_gradient (\<lambda>nuis. coupled_objective (constrained_pars mu nuis) () pdf) [a, c] =
     [8 * a - 4 * mu, 2 * c - 6]"
  by (simp add: difference_gradient_def shift_def coupled_objective_def constrained_pars_def
      power2_eq_square field_simps)

lemma coupled_hessian:
  "difference_hessian (\<lambda>nuis. coupled_objective (constrained_pars mu nuis) () pdf) [a, c] =
     [[8, 0], [0, 2]]"
  by (simp add: difference_hessian_def shift_def coupled_objective_def constrained_pars_def
      power2_eq_square algebra_simps)

lemma inv2_regularised:
  "inv2 (regularised [[8, 0], [0, 2]]) =
     Inr [[(2 + regulariser) / (16 + 10 * regulariser), - regulariser / (16 + 10 * regulariser)],
          [- regulariser / (16 + 10 * regulariser), (8 + regulariser) / (16 + 10 * regulariser)]]"
proof -
  have r: "0 < regulariser" by (simp add: regulariser_def)
  have d: "(8 + regulariser) * (2 + regulariser) - (0 + regulariser) * (0 + regulariser) =
      16 + 10 * regulariser"
    by (simp add: algebra_simps)
  from r have nz: "16 + 10 * regulariser \<noteq> 0" by simp
  have "inv2 [[8 + regulariser, 0 + regulariser], [0 + regulariser, 2 + regulariser]] =
     Inr [[(2 + regulariser) / (16 + 10 * regulariser), - (0 + regulariser) / (16 + 10 * regulariser)],
          [- (0 + regulariser) / (16 + 10 * regulariser), (8 + regulariser) / (16 + 10 * regulariser)]]"
    unfolding inv2.simps d using nz by simp
  then show ?thesis by (simp add: regularised_def)
qed

lemma regularised_det: "16 + 10 * regulariser \<noteq> 0"
proof -
  have "0 < regulariser" by (simp add: regulariser_def)
  then show ?thesis by simp
qed

lemma coupled_update:
  "update difference_tf (\<lambda>nuis. coupled_objective (constrained_pars mu nuis) () pdf) [a, c] =
     Inr [((2 + regulariser) * (8 * a - 4 * mu) - regulariser * (2 * c - 6)) / (16 + 10 * regulariser),
          ((8 + regulariser) * (2 * c - 6) - regulariser * (8 * a - 4 * mu)) / (16 + 10 * regulariser)]"
proof -
  let ?D = "16 + 10 * regulariser"
  have 1: "(2 + regulariser) / ?D * (8 * a - 4 * mu) + - regulariser / ?D * (2 * c - 6) =
      ((2 + regulariser) * (8 * a - 4 * mu) - regulariser * (2 * c - 6)) / ?D"
    by (simp add: diff_divide_distrib)
  have 2: "- regulariser / ?D * (8 * a - 4 * mu) + (8 + regulariser) / ?D * (2 * c - 6) =
      ((8 + regulariser) * (2 * c - 6) - regulariser * (8 * a - 4 * mu)) / ?D"
    by (simp add: diff_divide_distrib)
  have "update difference_tf (\<lambda>nuis. coupled_objective (constrained_pars mu nuis) () pdf) [a, c] =
    Inr [(2 + regulariser) / ?D * (8 * a - 4 * mu) + - regulariser / ?D * (2 * c - 6),
         - regulariser / ?D * (8 * a - 4 * mu) + (8 + regulariser) / ?D * (2 * c - 6)]"
    unfolding update_def
    by (simp add: difference_tf_def coupled_gradient coupled_hessian inv2_regularised matvec_def
        del: times_divide_eq_left times_divide_eq_right divide_minus_left minus_divide_left)
  then show ?thesis unfolding 1 2 .
qed

lemma coupled_two_steps:
  "\<exists>up1 x1 up2 x2.
     update difference_tf (\<lambda>nuis. coupled_objective (constrained_pars 1 nuis) () pdf) [2, 3] = Inr up1 \<and>
     newton_step [2, 3] up1 = Inr (x1, False) \<and>
     update difference_tf (\<lambda>nuis. coupled_objective (constrained_pars 1 nuis) () pdf) x1 = Inr up2 \<and>
     newton_step x1 up2 = Inr (x2, True) \<and> length x2 = 2 \<and>
     \<bar>x2 ! 0 - 1 / 2\<bar> < 1 / 10 ^ 6 \<and> \<bar>x2 ! 1 - 3\<bar> < 1 / 10 ^ 6"
  by (simp add: coupled_update newton_step_def np_sub_def np_max_def tolerance_def regulariser_def)

lemma coupled_one_step:
  "\<exists>invhess x'.
     tf_inv difference_tf (regularised (tf_hessians difference_tf
        (\<lambda>nuis. coupled_objective (1 # nuis) () pdf) [-3, 3])) = Inr invhess \<and>
     newton_step [-3, 3] (matvec invhess (tf_gradients difference_tf
        (\<lambda>nuis. coupled_objective (1 # nuis) () pdf) [-3, 3])) = Inr (x', True) \<and>
     length x' = 2 \<and> \<bar>x' ! 0 - 1 / 2\<bar> < 1 / 10 ^ 6 \<and> \<bar>x' ! 1 - 3\<bar> < 1 / 10 ^ 6"
  using coupled_hessian[of 1 pdf "-3" 3] coupled_gradient[of 1 pdf "-3" 3]
  by (simp add: difference_tf_def constrained_pars_eq inv2_regularised matvec_def
      newton_step_def np_sub_def np_max_def tolerance_def regulariser_def)

text \<open>
  What holds of the vector \<open>constrained_bestfit\<close> returns: when the backend's update
  has the shape of the nuisance vector, the result is as long as the initial vector, has
  the fixed value at \<open>poi_index\<close>, and without that position is the final nuisance
  estimate in its order.
\<close>

lemma constrained_bestfit_shape:
  assumes "poi_index (m_config pdf) = Some k" and "k < length init_pars"
    and "\<forall>x up. length x = length init_pars - 1 \<and>
           update tf (\<lambda>nuis. objective (mu # nuis) data pdf) x = Inr up \<longrightarrow>
             length up = length x"
  shows "(\<forall>best_fit.
            constrained_bestfit tf objective mu data pdf init_pars bounds = Inr best_fit \<longrightarrow>
            (\<exists>nuis i.
               newton_constrained 1000 (update tf (\<lambda>nuis. objective (mu # nuis) data pdf))
                 (take k init_pars @ drop (Suc k) init_pars, False) 0 = Inr ((nuis, True), i) \<and>
               i \<le> 1000 \<and> length best_fit = length init_pars \<and> best_fit ! k = mu \<and>
               take k best_fit @ drop (Suc k) best_fit = nuis)) \<and>
         ((\<forall>x. length x = length init_pars - 1 \<longrightarrow>
             (\<exists>up. update tf (\<lambda>nuis. objective (mu # nuis) data pdf) x = Inr up)) \<and>
           1 < length init_pars \<longrightarrow>
            (\<exists>best_fit. constrained_bestfit tf objective mu data pdf init_pars bounds =
                          Inr best_fit))"
proof -
  let ?run = "update tf (\<lambda>nuis. objective (mu # nuis) data pdf)"
  let ?n0 = "take k init_pars @ drop (Suc k) init_pars"
  have ln0: "length ?n0 = length init_pars - 1"
    using assms(2) by simp
  have shape: "\<forall>y up. length y = length init_pars - 1 \<and> ?run y = Inr up \<longrightarrow>
      length up = length init_pars - 1"
  proof (intro allI impI)
    fix y up
    assume a: "length y = length init_pars - 1 \<and> ?run y = Inr up"
    from assms(3)[rule_format, OF a] a show "length up = length init_pars - 1" by simp
  qed
  have first: "\<exists>nuis i.
               newton_constrained 1000 ?run (?n0, False) 0 = Inr ((nuis, True), i) \<and>
               i \<le> 1000 \<and> length best_fit = length init_pars \<and> best_fit ! k = mu \<and>
               take k best_fit @ drop (Suc k) best_fit = nuis"
    if res: "constrained_bestfit tf objective mu data pdf init_pars bounds = Inr best_fit"
    for best_fit
  proof -
    from constrained_bestfit_cases[OF assms(1) res] obtain nuis i where
      loop: "newton_constrained 1000 ?run (?n0, False) 0 = Inr ((nuis, True), i)"
      and bf: "best_fit = py_insert k mu nuis"
      by (elim exE conjE)
    from newton_constrained_result[OF loop shape ln0] have
      l: "length nuis = length init_pars - 1" and i: "i \<le> 1000" by simp_all
    from l assms(2) have kl: "k \<le> length nuis" by simp
    have "length best_fit = length init_pars" "best_fit ! k = mu"
      "take k best_fit @ drop (Suc k) best_fit = nuis"
      using py_insert_props[OF kl, of mu] l assms(2) unfolding bf by simp_all
    with loop i show ?thesis by (intro exI[of _ nuis] exI[of _ i] conjI)
  qed
  have second: "\<exists>best_fit. constrained_bestfit tf objective mu data pdf init_pars bounds =
                          Inr best_fit"
    if tot: "\<forall>x. length x = length init_pars - 1 \<longrightarrow> (\<exists>up. ?run x = Inr up)"
      and len: "1 < length init_pars"
  proof -
    have "\<forall>x. length x = length init_pars - 1 \<longrightarrow>
        (\<exists>up. ?run x = Inr up \<and> length up = length x)"
    proof (intro allI impI)
      fix x :: "real list" assume x: "length x = length init_pars - 1"
      from tot[rule_format, OF x] obtain up where up: "?run x = Inr up" ..
      from assms(3)[rule_format, of x up] x up have "length up = length x" by simp
      with up show "\<exists>up. ?run x = Inr up \<and> length up = length x" by simp
    qed
    from constrained_bestfit_returns[where objective = objective and mu = mu and data = data
        and tf = tf, OF assms(1,2) len this]
    show ?thesis .
  qed
  show ?thesis
  proof (intro conjI allI impI)
    fix best_fit
    assume "constrained_bestfit tf objective mu data pdf init_pars bounds = Inr best_fit"
    then show "\<exists>nuis i.
               newton_constrained 1000 ?run (?n0, False) 0 = Inr ((nuis, True), i) \<and>
               i \<le> 1000 \<and> length best_fit = length init_pars \<and> best_fit ! k = mu \<and>
               take k best_fit @ drop (Suc k) best_fit = nuis"
      by (rule first)
  next
    assume "(\<forall>x. length x = length init_pars - 1 \<longrightarrow> (\<exists>up. ?run x = Inr up)) \<and>
           1 < length init_pars"
    then show "\<exists>best_fit. constrained_bestfit tf objective mu data pdf init_pars bounds =
                          Inr best_fit"
      using second by simp
  qed
qed

text \<open>
  What holds of the parameter layout after a successful construction: \<open>next_index\<close> is
  the sum of the parameter counts of all modifier instances that were created, and the
  slices of two different names never overlap. When no name was allocated twice, the
  slices of the names in \<open>par_order\<close> tile the range from 0 to \<open>next_index\<close>, each
  starting where the previous one ended; if moreover every instance suggests as many
  initial values and bounds as it has parameters, \<open>suggested_init\<close> and
  \<open>suggested_bounds\<close> return lists of length \<open>next_index\<close>.
\<close>

lemma parameter_layout:
  assumes "from_spec registry spec poiname q = Inr cfg"
  shows "next_index cfg = sum_list (map n_parameters (objects cfg)) \<and>
         (\<forall>a b sa sb. a \<noteq> b \<and> par_slice cfg a = Inr sa \<and> par_slice cfg b = Inr sb
            \<longrightarrow> slice_range sa \<inter> slice_range sb = {}) \<and>
         (distinct (par_order cfg) \<longrightarrow>
            (\<exists>sls. map (par_slice cfg) (par_order cfg) = map Inr sls \<and>
                   contiguous 0 sls (next_index cfg))) \<and>
         (distinct (par_order cfg) \<and>
          (\<forall>m\<in>set (objects cfg). length (m_suggested_init m) = n_parameters m \<and>
                                   length (m_suggested_bounds m) = n_parameters m) \<longrightarrow>
            (\<exists>init bounds. suggested_init cfg = Inr init \<and> length init = next_index cfg \<and>
               suggested_bounds cfg = Inr bounds \<and> length bounds = next_index cfg))"
proof -
  from assms have inv: "alloc_inv cfg"
    using cfg_inv_from_spec[OF assms] by (simp add: cfg_inv_def)
  then have n: "next_index cfg = sum_list (map n_parameters (objects cfg))"
    by (simp add: alloc_inv_def)
  have d: "\<forall>a b sa sb. a \<noteq> b \<and> par_slice cfg a = Inr sa \<and> par_slice cfg b = Inr sb
            \<longrightarrow> slice_range sa \<inter> slice_range sb = {}"
    using par_slices_disjoint[OF inv] by blast
  have c: "\<exists>sls. map (par_slice cfg) (par_order cfg) = map Inr sls \<and>
             contiguous 0 sls (next_index cfg)" if "distinct (par_order cfg)"
    using par_slices_distinct[OF inv that] contiguous_alloc_slices[of 0 "map n_parameters (objects cfg)"] n
    by auto
  have s: "\<exists>init bounds. suggested_init cfg = Inr init \<and> length init = next_index cfg \<and>
               suggested_bounds cfg = Inr bounds \<and> length bounds = next_index cfg"
    if "distinct (par_order cfg)"
      and "\<forall>m\<in>set (objects cfg). length (m_suggested_init m) = n_parameters m \<and>
                                   length (m_suggested_bounds m) = n_parameters m"
    using suggested_init_distinct[OF inv that(1)] that(2) n
    by (simp add: length_concat_counts)
  from n d c s show ?thesis by blast
qed

text \<open>
  Claim C7 does not hold of the code. In the specification \<open>two_channel_reuse\<close> two
  channels with two and three bins both declare a \<^verbatim>\<open>shapesys\<close> modifier named
  \<^verbatim>\<open>unc\<close>. The class is not shared, so \<^verbatim>\<open>add_or_get_modifier\<close> creates an instance
  for each declaration, appends the name to \<open>par_order\<close> both times and overwrites
  \<open>par_map\<close> at the name. Construction succeeds with three instances of 1, 2 and 3
  parameters and \<open>next_index\<close> 6; the only registered slices are \<open>(0, 1)\<close> and
  \<open>(3, 6)\<close>, so the positions 1 and 2 allocated to the first instance belong to no name;
  and \<open>suggested_init\<close> and \<open>suggested_bounds\<close>, which walk \<open>par_order\<close>, read the
  second instance twice and return 1 + 3 + 3 = 7 entries for a vector of 6 parameters.
\<close>

theorem two_channel_reuse_layout:
  "\<exists>cfg init bounds.
     from_spec example_registry two_channel_reuse ''mu'' False = Inr cfg \<and>
     par_order cfg = [''mu'', ''unc'', ''unc''] \<and>
     map n_parameters (objects cfg) = [1, 2, 3] \<and> next_index cfg = 6 \<and>
     par_slice cfg ''mu'' = Inr (0, 1) \<and> par_slice cfg ''unc'' = Inr (3, 6) \<and>
     dom (par_map cfg) = {''unc'', ''mu''} \<and>
     suggested_init cfg = Inr init \<and> length init = 7 \<and>
     suggested_bounds cfg = Inr bounds \<and> length bounds = 7"
  by (simp add: example_defs two_channel_reuse_def Let_def)

text \<open>
  Claim C5. When the walk over the specification succeeds, construction fails with
  \<open>InvalidModel\<close> if the name of the parameter of interest is not among the declared
  modifier names, and it also fails, with the \<open>AssertionError\<close> of the \<^verbatim>\<open>assert\<close> in
  \<^verbatim>\<open>set_poi\<close>, if the name resolves to a slice whose width is not exactly 1. Without
  name qualification the names compared are those of the specification and the name is
  the one given.
\<close>

theorem from_spec_poi_errors:
  assumes "walk_channels registry q spec (init_walk poiname) = Inr w"
  shows "(w_poiname w \<notin> set (w_modifiers w) \<longrightarrow>
            from_spec registry spec poiname q = Inl InvalidModel) \<and>
         (\<forall>start stop. w_poiname w \<in> set (w_modifiers w) \<and>
            par_slice (w_instance w) (w_poiname w) = Inr (start, stop) \<and>
            int stop - int start \<noteq> 1 \<longrightarrow>
            from_spec registry spec poiname q = Inl AssertionError) \<and>
         (\<not> q \<longrightarrow> w_poiname w = poiname \<and> w_modifiers w = declared_names spec)"
proof -
  have "w_poiname w = poiname \<and> w_modifiers w = declared_names spec" if "\<not> q"
    using walk_channels_names[of registry spec "init_walk poiname" w] assms that
    by (simp add: init_walk_def)
  moreover have "from_spec registry spec poiname q = Inl InvalidModel"
    if "w_poiname w \<notin> set (w_modifiers w)"
    using assms that by (simp add: from_spec_def set_poi_def finish_walk_def)
  moreover have "from_spec registry spec poiname q = Inl AssertionError"
    if "w_poiname w \<in> set (w_modifiers w)"
      "par_slice (w_instance w) (w_poiname w) = Inr (start, stop)"
      "int stop - int start \<noteq> 1" for start stop
  proof -
    from that(2) have "par_slice (finish_walk w) (w_poiname w) = Inr (start, stop)"
      by (simp add: par_slice_def finish_walk_def)
    with assms that(1,3) show ?thesis
      by (simp add: from_spec_def set_poi_def) (simp add: finish_walk_def)
  qed
  ultimately show ?thesis by blast
qed

theorem from_spec_poi_errors_witness:
  "from_spec example_registry no_poi ''mu'' False = Inl InvalidModel \<and>
   from_spec example_registry no_poi ''unc'' False = Inl AssertionError"
proof -
  have "\<exists>w. walk_channels example_registry False no_poi (init_walk ''mu'') = Inr w \<and>
          w_poiname w = ''mu'' \<and> w_modifiers w = [''unc'']"
    by (simp add: example_defs no_poi_def Let_def)
  then obtain w where w: "walk_channels example_registry False no_poi (init_walk ''mu'') = Inr w"
    and "w_poiname w = ''mu''" "w_modifiers w = [''unc'']"
    by (elim exE conjE)
  then have "w_poiname w \<notin> set (w_modifiers w)" by simp
  with from_spec_poi_errors[OF w] have 1: "from_spec example_registry no_poi ''mu'' False = Inl InvalidModel"
    by blast
  have "\<exists>w. walk_channels example_registry False no_poi (init_walk ''unc'') = Inr w \<and>
          w_poiname w = ''unc'' \<and> w_modifiers w = [''unc''] \<and>
          par_slice (w_instance w) ''unc'' = Inr (0, 2)"
    by (simp add: example_defs no_poi_def Let_def)
  then obtain v where v: "walk_channels example_registry False no_poi (init_walk ''unc'') = Inr v"
    and p: "w_poiname v = ''unc''" "w_modifiers v = [''unc'']"
      "par_slice (w_instance v) ''unc'' = Inr (0, 2)"
    by (elim exE conjE)
  then have "w_poiname v \<in> set (w_modifiers v) \<and>
     par_slice (w_instance v) (w_poiname v) = Inr (0, 2) \<and> int 2 - int 0 \<noteq> 1" by simp
  with from_spec_poi_errors[OF v] have 2: "from_spec example_registry no_poi ''unc'' False = Inl AssertionError"
    by blast
  from 1 2 show ?thesis by simp
qed

text \<open>
  The branch of \<^verbatim>\<open>add_or_get_modifier\<close> for a definition whose class is shared and
  whose name is registered, and its effect on whole specifications: a shared name
  declared twice with one type gets one instance and one slice, and a shared name
  declared again with another shared type fails.
\<close>

lemma shared_redeclaration:
  assumes "registry (md_type d) = Some cls" and "is_shared cls"
    and "par_map self (md_name d) = Some (sl, r)"
  shows "add_or_get_modifier registry self channel sample d =
           (if type_name (objects self ! r) = md_type d then Inr (self, r)
            else Inl InvalidNameReuse)"
  using assms by (simp add: add_or_get_modifier_def)

lemma shared_twice_one_slice:
  "\<exists>cfg. from_spec example_registry shared_twice ''mu'' False = Inr cfg \<and>
      par_order cfg = [''mu''] \<and> next_index cfg = 1 \<and> length (objects cfg) = 1 \<and>
      map added_samples (objects cfg) = [[(''A'', ''signal''), (''A'', ''background'')]]"
  by (simp add: example_defs shared_twice_def Let_def)

lemma shared_other_type_fails:
  "from_spec example_registry shared_other_type ''mu'' False = Inl InvalidNameReuse"
  by (simp add: example_defs shared_other_type_def Let_def)

text \<open>
  Claim C6 does not hold of the code. The type check sits behind the guard
  \<^verbatim>\<open>modifier_cls.is_shared and modifier_def['name'] in self.par_map\<close>, which reads the
  class of the new definition only. In \<open>name_reuse_other_type\<close> the name \<^verbatim>\<open>x\<close> is
  registered as a \<^verbatim>\<open>normsys\<close> modifier and declared again as a \<^verbatim>\<open>shapesys\<close> modifier,
  whose class is not shared: no error is raised, a third instance is created, the entry
  of \<^verbatim>\<open>x\<close> in \<open>par_map\<close> is replaced (the slice \<open>(1, 2)\<close> of the registered instance
  is left without a name), \<^verbatim>\<open>x\<close> stands twice in \<open>par_order\<close> and in
  \<open>auxdata_order\<close>, and \<open>suggested_init\<close> has 5 entries for 4 parameters. The same two
  declarations in the other order, \<open>name_reuse_reverse\<close>, fail with \<open>InvalidNameReuse\<close>.
\<close>

theorem name_reuse_unchecked:
  "(\<exists>cfg init.
     from_spec example_registry name_reuse_other_type ''mu'' False = Inr cfg \<and>
     par_order cfg = [''mu'', ''x'', ''x''] \<and>
     map type_name (objects cfg) = [''normfactor'', ''normsys'', ''shapesys''] \<and>
     next_index cfg = 4 \<and> par_slice cfg ''x'' = Inr (2, 4) \<and>
     dom (par_map cfg) = {''x'', ''mu''} \<and>
     auxdata_order cfg = [''x'', ''x''] \<and>
     suggested_init cfg = Inr init \<and> length init = 5) \<and>
   from_spec example_registry name_reuse_reverse ''mu'' False = Inl InvalidNameReuse"
  by (simp add: example_defs name_reuse_other_type_def name_reuse_reverse_def Let_def)

text \<open>
  Claim C1. For a constructed model and a parameter vector for which the combiners
  return a valid result index, \<open>expected_actualdata\<close> returns one entry per channel,
  and the entry of channel \<open>c\<close> is the sum over all (sample slot, bin) positions of
  factor times (delta plus nominal cube), where positions whose value is not a number
  contribute nothing, the factor is the product of all opcode-0 contributions and the
  delta the sum of all opcode-1 contributions (\<open>channel_sum\<close>).
\<close>

theorem expected_actualdata_channel_sums:
  assumes "Model tensorlib registry spec poiname q = Inr self"
    and "make_result_index self combine pars = Inr (n, ri)"
    and "valid_for (m_cube self) n ri"
  shows "expected_actualdata self combine pars =
           Inr (map (\<lambda>c. Fin (channel_sum (m_cube self) n ri c)) [0..<length spec])"
proof -
  from Model_cube[OF assms(1)] obtain ns nb where
    sh: "has_shape (length spec) ns nb (m_cube self)"
      "shape (m_cube self) = (length spec, ns, nb)"
    and len: "length (m_spec self) = length spec"
    by blast
  from assms(3) sh(2) have "valid_result_index n (length spec) ns nb ri"
    by (simp add: valid_for_def)
  from expected_actualdata_eq[OF sh len assms(2) this] show ?thesis .
qed

theorem expected_actualdata_channel_sums_witness:
  "\<exists>self. Model stand_in_backend example_registry hepdata_like ''mu'' False = Inr self \<and>
     expected_actualdata self hepdata_combine [2, 1, 1] = Inr [Fin 148]"
proof -
  from hepdata_model[of stand_in_backend] obtain self where
    m: "Model stand_in_backend example_registry hepdata_like ''mu'' False = Inr self"
    and cube: "m_cube self = [[[Fin 12, Fin 11], [Fin 50, Fin 52]]]"
    and mods: "m_allmods self = [(''mu'', (''normfactor'', 0, 0)),
                       (''uncorr_bkguncrt'', (''shapesys'', 0, 1))]"
    by (elim exE conjE)
  let ?ri = "[((0, 0, 0, 0), [Fin 2, Fin 2]), ((0, 1, 0, 1), [Fin 1, Fin 1])] :: result_index"
  have ri: "make_result_index self hepdata_combine [2, 1, 1] = Inr (2, ?ri)"
    by (simp add: make_result_index_def mods hepdata_combine_def combined_types_def
        trivial_types_def)
  have v: "valid_for (m_cube self) 2 ?ri"
    by (simp add: valid_for_def cube shape_def valid_result_index_def in_range_def)
  have len: "length hepdata_like = 1" by (simp add: hepdata_like_def)
  have "channel_sum (m_cube self) 2 ?ri 0 = 148"
    by (simp add: channel_sum_eval cube upt_rec[of 0] upt_rec[of 1] upt_rec[of "Suc 0"])
  with expected_actualdata_channel_sums[OF m ri v] len m show ?thesis
    by auto
qed



text \<open>
  Claim C2, as the code has it. For a constructed model whose constrained modifiers
  carry one auxiliary datum per parameter, and data with at least as many entries as the
  total constrained-parameter count, \<open>logpdf\<close> splits the data by position into a
  trailing auxiliary segment as long as the total constrained-parameter count and a
  leading segment that holds all the other entries; the leading segment has one entry
  per channel exactly when the data has as many entries as there are channels and
  constrained parameters together. An error raised by \<open>expected_actualdata\<close>, by the
  backend's Poisson density or by \<open>constraint_logpdf\<close> is raised by \<open>logpdf\<close>;
  otherwise the result is the one-element tensor holding the sum of the Poisson
  log-likelihood of the leading segment given \<open>expected_actualdata\<close> and the constraint
  term of the auxiliary segment.
\<close>

theorem logpdf_split:
  assumes "Model backend registry spec poiname q = Inr self"
    and "\<forall>m\<in>set (objects (m_config self)).
           is_constrained m \<longrightarrow> length (m_auxdata m) = n_parameters m"
    and "sum_list (map n_parameters (filter is_constrained (objects (m_config self)))) \<le>
           length data"
  shows "\<exists>actual aux.
           split_data self data = (actual, aux) \<and> data = actual @ aux \<and>
           length aux =
             sum_list (map n_parameters (filter is_constrained (objects (m_config self)))) \<and>
           (length actual = length spec \<longleftrightarrow>
              length data = length spec +
                sum_list (map n_parameters (filter is_constrained (objects (m_config self))))) \<and>
           logpdf tensorlib self combine pars data =
             (case expected_actualdata self combine pars of
                Inl e \<Rightarrow> Inl e
              | Inr lambdas \<Rightarrow>
                  (case tl_poisson tensorlib actual lambdas of
                     Inl e \<Rightarrow> Inl e
                   | Inr density \<Rightarrow>
                       (case constraint_logpdf tensorlib self aux pars of
                          Inl e \<Rightarrow> Inl e
                        | Inr constraint \<Rightarrow>
                            Inr [fadd (tl_sum tensorlib (tl_log tensorlib density))
                                   constraint])))"
proof -
  let ?n = "sum_list (map n_parameters (filter is_constrained (objects (m_config self))))"
  let ?k = "length data - ?n"
  from assms(1) have "from_spec registry spec poiname q = Inr (m_config self)"
    by (rule Model_parts(1))
  from cfg_inv_from_spec[OF this] have "aux_inv (m_config self)"
    by (simp add: cfg_inv_def)
  with aux_count[OF assms(2)] have n: "length (auxdata (m_config self)) = ?n"
    by (simp add: aux_inv_def)
  with assms(3) have le: "length (auxdata (m_config self)) \<le> length data" by simp
  have sp: "split_data self data = (take ?k data, drop ?k data)"
    using split_data_eq[OF le] n by simp
  have cat: "data = take ?k data @ drop ?k data" by simp
  have len: "length (drop ?k data) = ?n"
    using assms(3) by simp
  have iff: "length (take ?k data) = length spec \<longleftrightarrow> length data = length spec + ?n"
    using assms(3) by auto
  have lp: "logpdf tensorlib self combine pars data =
             (case expected_actualdata self combine pars of
                Inl e \<Rightarrow> Inl e
              | Inr lambdas \<Rightarrow>
                  (case tl_poisson tensorlib (take ?k data) lambdas of
                     Inl e \<Rightarrow> Inl e
                   | Inr density \<Rightarrow>
                       (case constraint_logpdf tensorlib self (drop ?k data) pars of
                          Inl e \<Rightarrow> Inl e
                        | Inr constraint \<Rightarrow>
                            Inr [fadd (tl_sum tensorlib (tl_log tensorlib density))
                                   constraint])))"
    by (simp add: logpdf_def sp Let_def split: sum.splits)
  from sp cat len iff lp show ?thesis
    by (intro exI[of _ "take ?k data"] exI[of _ "drop ?k data"] conjI)
qed

theorem logpdf_split_witness:
  "\<exists>self. Model stand_in_backend example_registry normsys_like ''mu'' False = Inr self \<and>
     sum_list (map n_parameters (filter is_constrained (objects (m_config self)))) = 1 \<and>
     expected_actualdata self normsys_combine [1, 1] = Inr [Fin 227] \<and>
     constraint_logpdf stand_in_backend self [3] [1, 1] = Inr (Fin 4) \<and>
     logpdf stand_in_backend self normsys_combine [1, 1] [227, 3] = Inr [Fin (227 * 227 + 4)]"
proof -
  from normsys_model[of stand_in_backend] obtain self where
    m: "Model stand_in_backend example_registry normsys_like ''mu'' False = Inr self"
    and cube: "m_cube self = [[[Fin 12, Fin 11], [Fin 50, Fin 52]]]"
    and mods: "m_allmods self = [(''mu'', (''normfactor'', 0, 0)), (''lumi'', (''normsys'', 0, 1))]"
    and ao: "auxdata_order (m_config self) = [''lumi'']"
    and mr: "modifier_ref (m_config self) ''lumi'' = Inr 1"
    and ps: "par_slice (m_config self) ''lumi'' = Inr (1, 2)"
    and tn: "map type_name (objects (m_config self)) = [''normfactor'', ''normsys'']"
    and pt: "map pdf_type (objects (m_config self)) = [None, Some ''normal'']"
    and al: "map alphas (objects (m_config self)) = [None, Some (map Fin)]"
    and ic: "map is_constrained (objects (m_config self)) = [False, True]"
    and np: "map n_parameters (objects (m_config self)) = [1, 1]"
    and ma: "map m_auxdata (objects (m_config self)) = [[], [0]]"
    by (elim exE conjE)
  from tn pt al ic np ma obtain m1 m2 where objs: "objects (m_config self) = [m1, m2]"
    and m1: "\<not> is_constrained m1"
    and m2: "is_constrained m2" "n_parameters m2 = 1" "m_auxdata m2 = [0]"
      "type_name m2 = ''normsys''" "pdf_type m2 = Some ''normal''" "alphas m2 = Some (map Fin)"
    by (auto simp: map_eq_Cons_conv)
  have contract: "\<forall>m\<in>set (objects (m_config self)).
      is_constrained m \<longrightarrow> length (m_auxdata m) = n_parameters m"
    using objs m1 m2 by simp
  have count: "sum_list (map n_parameters (filter is_constrained (objects (m_config self)))) = 1"
    using objs m1 m2 by simp
  then have le: "sum_list (map n_parameters (filter is_constrained (objects (m_config self)))) \<le>
      length [227, 3 :: real]" by simp
  from Model_parts(2)[OF m] have len: "length (m_spec self) = 1"
    by (simp add: normsys_like_def)
  have e: "expected_actualdata self normsys_combine [1, 1] = Inr [Fin 227]"
    using normsys_expected[OF cube mods len, of 1 1] by simp
  have c: "constraint_logpdf stand_in_backend self [3] [1, 1] = Inr (Fin 4)"
    using normsys_constraint[OF ao mr ps, of 3 1 1] objs m2 by simp
  from logpdf_split[OF m contract le, of stand_in_backend normsys_combine "[1, 1]"]
  obtain actual aux where cat: "[227, 3] = actual @ aux"
    and la: "length aux =
      sum_list (map n_parameters (filter is_constrained (objects (m_config self))))"
    and lp: "logpdf stand_in_backend self normsys_combine [1, 1] [227, 3] =
             (case expected_actualdata self normsys_combine [1, 1] of
                Inl e \<Rightarrow> Inl e
              | Inr lambdas \<Rightarrow>
                  (case tl_poisson stand_in_backend actual lambdas of
                     Inl e \<Rightarrow> Inl e
                   | Inr density \<Rightarrow>
                       (case constraint_logpdf stand_in_backend self aux [1, 1] of
                          Inl e \<Rightarrow> Inl e
                        | Inr constraint \<Rightarrow>
                            Inr [fadd (tl_sum stand_in_backend (tl_log stand_in_backend density))
                                   constraint])))"
    by (elim exE conjE)
  from cat la count have "actual = [227] \<and> aux = [3]"
    by (auto simp: append_eq_Cons_conv Cons_eq_append_conv)
  with lp e c have "logpdf stand_in_backend self normsys_combine [1, 1] [227, 3] =
      Inr [Fin (227 * 227 + 4)]"
    by (simp add: stand_in_backend_def broadcast2_def np_sum_def)
  with m count e c show ?thesis by (intro exI[of _ self] conjI)
qed

text \<open>
  Claim C2 as stated fails in two ways on the model of the repository's test fixture,
  which has one channel and two constrained parameters. On the data of the fixture, the
  two observed bin counts followed by the auxiliary data, the leading segment holds both
  counts and not one entry per channel. On data with a single entry the cut
  \<^verbatim>\<open>len(data) - len(config.auxdata)\<close> is negative and counts from the end: the leading
  segment is empty and the trailing segment has one entry and not two.
\<close>

theorem logpdf_split_counterexample:
  "\<exists>self. Model stand_in_backend example_registry hepdata_like ''mu'' False = Inr self \<and>
     length (m_spec self) = 1 \<and>
     sum_list (map n_parameters (filter is_constrained (objects (m_config self)))) = 2 \<and>
     split_data self ([51, 48] @ auxdata (m_config self)) = ([51, 48], auxdata (m_config self)) \<and>
     length (fst (split_data self ([51, 48] @ auxdata (m_config self)))) = 2 \<and>
     length (snd (split_data self ([51, 48] @ auxdata (m_config self)))) = 2 \<and>
     split_data self [7] = ([], [7]) \<and>
     length (snd (split_data self [7])) = 1"
proof -
  from hepdata_constrained[of stand_in_backend] obtain self where
    m: "Model stand_in_backend example_registry hepdata_like ''mu'' False = Inr self"
    and aux: "auxdata (m_config self) = [(50 / 3)\<^sup>2, (52 / 7)\<^sup>2]"
    and ic: "map is_constrained (objects (m_config self)) = [False, True]"
    and np: "map n_parameters (objects (m_config self)) = [1, 2]"
    by (elim exE conjE)
  from ic np obtain m1 m2 where objs: "objects (m_config self) = [m1, m2]"
    and "\<not> is_constrained m1" "is_constrained m2" "n_parameters m2 = 2"
    by (auto simp: map_eq_Cons_conv)
  then have count: "sum_list (map n_parameters (filter is_constrained (objects (m_config self)))) = 2"
    by simp
  from Model_parts(2)[OF m] have len: "length (m_spec self) = 1"
    by (simp add: hepdata_like_def)
  have sp: "split_data self ([51, 48] @ auxdata (m_config self)) =
      ([51, 48], auxdata (m_config self))"
    by (simp add: split_data_def aux slice_to_def slice_from_def)
  have short: "split_data self [7] = ([], [7])"
    by (simp add: split_data_def aux slice_to_def slice_from_def)
  from m len count sp short aux show ?thesis
    by (intro exI[of _ self] conjI) simp_all
qed

text \<open>
  Claim C4 does not hold of the code. The vector handed to the objective is
  \<^verbatim>\<open>concatenate([nuis_cat[:0], poi_par, nuis_cat[0:]])\<close>: the slices are cut at the
  constant 0 and not at \<open>poi_index\<close>, so the fixed value stands at position 0 and, for a
  model whose parameter of interest is not parameter 0, the model's slot of the parameter
  of interest holds a free nuisance value. For the objective
  \<open>(p\<^sub>0 - 2 p\<^sub>1)\<^sup>2 + (p\<^sub>2 - 3)\<^sup>2\<close>, a model with \<open>poi_index\<close> 1 and the fixed value 1, the
  minimum with parameter 1 held at 1 is at \<open>[2, 1, 3]\<close>, where the objective is 0. Started
  at that very point, with a backend that differentiates the objective exactly, the fit
  minimises \<open>(1 - 2 n\<^sub>0)\<^sup>2 + (n\<^sub>1 - 3)\<^sup>2\<close> instead and returns a vector within \<open>10\<^sup>-\<^sup>6\<close> of
  \<open>[1/2, 1, 3]\<close>. The fixed value is inserted at \<open>poi_index\<close> of the returned list.
\<close>

theorem constrained_bestfit_poi_slot:
  "(\<exists>best_fit.
      constrained_bestfit difference_tf coupled_objective 1 () (fixed_poi_model 1) [2, 1, 3] () =
        Inr best_fit \<and>
      length best_fit = 3 \<and> best_fit ! 1 = 1 \<and>
      \<bar>best_fit ! 0 - 1 / 2\<bar> < 1 / 10 ^ 6 \<and> \<bar>best_fit ! 2 - 3\<bar> < 1 / 10 ^ 6) \<and>
   coupled_objective [2, 1, 3] () (fixed_poi_model 1) = 0 \<and>
   (\<forall>a c. 0 \<le> coupled_objective [a, 1, c] () (fixed_poi_model 1)) \<and>
   (\<forall>n0 n1. coupled_objective (constrained_pars 1 [n0, n1]) () (fixed_poi_model 1) =
      (1 - 2 * n0)\<^sup>2 + (n1 - 3)\<^sup>2)"
proof -
  let ?pdf = "fixed_poi_model 1 :: real list model"
  let ?run = "update difference_tf (\<lambda>nuis. coupled_objective (constrained_pars 1 nuis) () ?pdf)"
  from coupled_two_steps[of ?pdf] obtain up1 x1 up2 x2 where
    u1: "?run [2, 3] = Inr up1" and s1: "newton_step [2, 3] up1 = Inr (x1, False)"
    and u2: "?run x1 = Inr up2" and s2: "newton_step x1 up2 = Inr (x2, True)"
    and l: "length x2 = 2"
    and b: "\<bar>x2 ! 0 - 1 / 2\<bar> < 1 / 10 ^ 6" "\<bar>x2 ! 1 - 3\<bar> < 1 / 10 ^ 6"
    by (elim exE conjE)
  have "newton_constrained (Suc (Suc 998)) ?run ([2, 3], False) 0 = Inr ((x2, True), Suc (Suc 0))"
    unfolding newton_constrained_continue[where run = ?run and x = "[2, 3]", OF u1 s1]
      newton_constrained_break[where run = ?run and x = x1, OF u2 s2] ..
  then have loop: "newton_constrained 1000 ?run ([2, 3], False) 0 = Inr ((x2, True), 2)"
    by (simp add: eval_nat_numeral)
  have poi: "poi_index (m_config ?pdf) = Some 1" by (simp add: fixed_poi_model_def)
  have nu: "nuisance (poi_index (m_config ?pdf)) [2, 1, 3] = [2, 3]"
    by (simp add: fixed_poi_model_def nuisance_Some)
  have fit: "fit_nuisance difference_tf coupled_objective 1 () ?pdf [2, 1, 3] =
      Inr ((x2, True), 2)"
    unfolding fit_nuisance_def nu by (rule loop)
  from l obtain a c where x2: "x2 = [a, c]"
    by (auto simp: length_Suc_conv numeral_2_eq_2)
  have "constrained_bestfit difference_tf coupled_objective 1 () ?pdf [2, 1, 3] () = Inr [a, 1, c]"
    unfolding constrained_bestfit_def fit poi by (simp add: x2 py_insert_def)
  moreover have "coupled_objective [2, 1, 3] () ?pdf = 0"
    by (simp add: coupled_objective_def)
  moreover have "\<forall>a c. 0 \<le> coupled_objective [a, 1, c] () ?pdf"
    by (simp add: coupled_objective_def)
  moreover have "\<forall>n0 n1. coupled_objective (constrained_pars 1 [n0, n1]) () ?pdf =
      (1 - 2 * n0)\<^sup>2 + (n1 - 3)\<^sup>2"
    by (simp add: coupled_objective_def constrained_pars_def)
  ultimately show ?thesis using b x2 by simp
qed

text \<open>
  Claim C10. For a model whose parameter of interest is parameter \<open>k\<close>, the loop of
  \<open>constrained_bestfit\<close> runs on the update of the objective bound to the fixed value
  followed by the whole nuisance vector, \<open>\<lambda>nuis. objective (mu # nuis) data pdf\<close>,
  whatever \<open>k\<close> is, starting from the initial parameters without the one at \<open>k\<close>. Its
  first iteration inverts the regularised Hessian of that function at the start vector,
  multiplies the inverse with the gradient of that function there and subtracts the
  product. The fit therefore depends on the objective only through its values on
  vectors that start with the fixed value. Only the returned list has the fixed value
  inserted at position \<open>k\<close> of the final nuisance estimate.
\<close>

theorem constrained_objective_binding:
  assumes "poi_index (m_config pdf) = Some k"
  shows "constrained_pars mu nuis = mu # nuis \<and>
    fit_nuisance tf objective mu data pdf init_pars =
      newton_constrained 1000 (update tf (\<lambda>nuis. objective (mu # nuis) data pdf))
        (take k init_pars @ drop (Suc k) init_pars, False) 0 \<and>
    (\<forall>invhess x' stop.
       tf_inv tf (regularised (tf_hessians tf (\<lambda>nuis. objective (mu # nuis) data pdf)
          (take k init_pars @ drop (Suc k) init_pars))) = Inr invhess \<and>
       newton_step (take k init_pars @ drop (Suc k) init_pars)
         (matvec invhess (tf_gradients tf (\<lambda>nuis. objective (mu # nuis) data pdf)
            (take k init_pars @ drop (Suc k) init_pars))) = Inr (x', stop) \<longrightarrow>
       fit_nuisance tf objective mu data pdf init_pars =
         (if stop then Inr ((x', True), 1)
          else newton_constrained 999 (update tf (\<lambda>nuis. objective (mu # nuis) data pdf))
                 (x', True) 1)) \<and>
    constrained_bestfit tf objective mu data pdf init_pars bounds =
      (case fit_nuisance tf objective mu data pdf init_pars of
         Inl e \<Rightarrow> Inl e
       | Inr ((best_fit_nuis, is_array), i) \<Rightarrow>
           if is_array then Inr (take k best_fit_nuis @ [mu] @ drop k best_fit_nuis)
           else Inl AttributeError) \<and>
    ((\<forall>nuis. objective (mu # nuis) data pdf = objective' (mu # nuis) data pdf) \<longrightarrow>
       constrained_bestfit tf objective mu data pdf init_pars bounds =
       constrained_bestfit tf objective' mu data pdf init_pars bounds)"
proof -
  let ?f = "\<lambda>nuis. objective (mu # nuis) data pdf"
  let ?run = "update tf ?f"
  let ?n0 = "take k init_pars @ drop (Suc k) init_pars"
  have fit: "fit_nuisance tf objective mu data pdf init_pars =
      newton_constrained 1000 ?run (?n0, False) 0"
    by (rule fit_nuisance_eq[OF assms])
  have step: "fit_nuisance tf objective mu data pdf init_pars =
         (if stop then Inr ((x', True), 1) else newton_constrained 999 ?run (x', True) 1)"
    if a: "tf_inv tf (regularised (tf_hessians tf ?f ?n0)) = Inr invhess \<and>
       newton_step ?n0 (matvec invhess (tf_gradients tf ?f ?n0)) = Inr (x', stop)"
    for invhess x' stop
  proof -
    from a have up: "?run ?n0 = Inr (matvec invhess (tf_gradients tf ?f ?n0))"
      by (simp add: update_def)
    from a have st: "newton_step ?n0 (matvec invhess (tf_gradients tf ?f ?n0)) = Inr (x', stop)"
      by simp
    have "newton_constrained (Suc 999) ?run (?n0, False) 0 =
         (if stop then Inr ((x', True), 1) else newton_constrained 999 ?run (x', True) 1)"
    proof (cases stop)
      case True
      with st newton_constrained_break[where run = ?run and x = ?n0 and x' = x' and k = 999
          and arr = False and i = 0, OF up]
      show ?thesis by simp
    next
      case False
      with st newton_constrained_continue[where run = ?run and x = ?n0 and x' = x' and k = 999
          and arr = False and i = 0, OF up]
      show ?thesis by simp
    qed
    then show ?thesis unfolding fit by (simp add: eval_nat_numeral)
  qed
  have res: "constrained_bestfit tf objective mu data pdf init_pars bounds =
      (case fit_nuisance tf objective mu data pdf init_pars of
         Inl e \<Rightarrow> Inl e
       | Inr ((best_fit_nuis, is_array), i) \<Rightarrow>
           if is_array then Inr (take k best_fit_nuis @ [mu] @ drop k best_fit_nuis)
           else Inl AttributeError)"
    by (simp add: constrained_bestfit_def assms py_insert_def split: sum.splits prod.splits)
  have dep: "constrained_bestfit tf objective mu data pdf init_pars bounds =
       constrained_bestfit tf objective' mu data pdf init_pars bounds"
    if "\<forall>nuis. objective (mu # nuis) data pdf = objective' (mu # nuis) data pdf"
  proof -
    from that have "(\<lambda>nuis_cat. objective (constrained_pars mu nuis_cat) data pdf) =
      (\<lambda>nuis_cat. objective' (constrained_pars mu nuis_cat) data pdf)"
      by (simp add: constrained_pars_eq)
    then show ?thesis by (simp add: constrained_bestfit_def fit_nuisance_def)
  qed
  show ?thesis
  proof (intro conjI allI impI)
    show "constrained_pars mu nuis = mu # nuis" by (rule constrained_pars_eq)
    show "fit_nuisance tf objective mu data pdf init_pars =
      newton_constrained 1000 ?run (?n0, False) 0" by (rule fit)
    show "constrained_bestfit tf objective mu data pdf init_pars bounds =
      (case fit_nuisance tf objective mu data pdf init_pars of
         Inl e \<Rightarrow> Inl e
       | Inr ((best_fit_nuis, is_array), i) \<Rightarrow>
           if is_array then Inr (take k best_fit_nuis @ [mu] @ drop k best_fit_nuis)
           else Inl AttributeError)" by (rule res)
  next
    fix invhess x' stop
    assume "tf_inv tf (regularised (tf_hessians tf ?f ?n0)) = Inr invhess \<and>
       newton_step ?n0 (matvec invhess (tf_gradients tf ?f ?n0)) = Inr (x', stop)"
    then show "fit_nuisance tf objective mu data pdf init_pars =
         (if stop then Inr ((x', True), 1) else newton_constrained 999 ?run (x', True) 1)"
      by (rule step)
  next
    assume "\<forall>nuis. objective (mu # nuis) data pdf = objective' (mu # nuis) data pdf"
    then show "constrained_bestfit tf objective mu data pdf init_pars bounds =
       constrained_bestfit tf objective' mu data pdf init_pars bounds" by (rule dep)
  qed
qed

theorem constrained_objective_binding_witness:
  "\<exists>x'.
     fit_nuisance difference_tf coupled_objective 1 () (fixed_poi_model 1) [-3, 1, 3] =
       Inr ((x', True), 1) \<and>
     newton_constrained 1000
       (update difference_tf (\<lambda>nuis. coupled_objective (1 # nuis) () (fixed_poi_model 1)))
       ([-3, 3], False) 0 = Inr ((x', True), 1) \<and>
     constrained_bestfit difference_tf coupled_objective 1 () (fixed_poi_model 1) [-3, 1, 3] () =
       Inr [x' ! 0, 1, x' ! 1] \<and>
     constrained_bestfit difference_tf coupled_masked 1 () (fixed_poi_model 1) [-3, 1, 3] () =
       Inr [x' ! 0, 1, x' ! 1] \<and>
     \<bar>x' ! 0 - 1 / 2\<bar> < 1 / 10 ^ 6 \<and> \<bar>x' ! 1 - 3\<bar> < 1 / 10 ^ 6 \<and>
     constrained_pars 1 x' = 1 # x'"
proof -
  let ?pdf = "fixed_poi_model 1 :: real list model"
  let ?f = "\<lambda>nuis. coupled_objective (1 # nuis) () ?pdf"
  have poi: "poi_index (m_config ?pdf) = Some 1" by (simp add: fixed_poi_model_def)
  have n0: "take 1 [-3, 1, 3 :: real] @ drop (Suc 1) [-3, 1, 3] = [-3, 3]" by simp
  from coupled_one_step[of ?pdf] obtain invhess x' where
    inv: "tf_inv difference_tf (regularised (tf_hessians difference_tf ?f [-3, 3])) = Inr invhess"
    and st: "newton_step [-3, 3] (matvec invhess (tf_gradients difference_tf ?f [-3, 3])) =
      Inr (x', True)"
    and l: "length x' = 2"
    and b: "\<bar>x' ! 0 - 1 / 2\<bar> < 1 / 10 ^ 6" "\<bar>x' ! 1 - 3\<bar> < 1 / 10 ^ 6"
    by (elim exE conjE)
  have agree: "\<forall>nuis. coupled_objective (1 # nuis) () ?pdf = coupled_masked (1 # nuis) () ?pdf"
    by (simp add: coupled_masked_def)
  note T = constrained_objective_binding[where tf = difference_tf and objective = coupled_objective
      and objective' = coupled_masked and mu = 1 and data = "()" and pdf = ?pdf
      and init_pars = "[-3, 1, 3]" and bounds = "()" and nuis = x', OF poi, unfolded n0]
  from T have pars: "constrained_pars 1 x' = 1 # x'" by (rule conjunct1)
  from T have fit: "fit_nuisance difference_tf coupled_objective 1 () ?pdf [-3, 1, 3] =
      newton_constrained 1000 (update difference_tf ?f) ([-3, 3], False) 0"
    by (elim conjE)
  from T have "tf_inv difference_tf (regularised (tf_hessians difference_tf ?f [-3, 3])) =
        Inr invhess \<and>
      newton_step [-3, 3] (matvec invhess (tf_gradients difference_tf ?f [-3, 3])) =
        Inr (x', True) \<longrightarrow>
      fit_nuisance difference_tf coupled_objective 1 () ?pdf [-3, 1, 3] =
        (if True then Inr ((x', True), 1)
         else newton_constrained 999 (update difference_tf ?f) (x', True) 1)"
    by (elim conjE allE[of _ invhess] allE[of _ x'] allE[of _ True])
  with inv st have one: "fit_nuisance difference_tf coupled_objective 1 () ?pdf [-3, 1, 3] =
      Inr ((x', True), 1)" by simp
  from l obtain a c where x': "x' = [a, c]"
    by (auto simp: length_Suc_conv numeral_2_eq_2)
  from T have "constrained_bestfit difference_tf coupled_objective 1 () ?pdf [-3, 1, 3] () =
      (case fit_nuisance difference_tf coupled_objective 1 () ?pdf [-3, 1, 3] of
         Inl e \<Rightarrow> Inl e
       | Inr ((best_fit_nuis, is_array), i) \<Rightarrow>
           if is_array then Inr (take 1 best_fit_nuis @ [1] @ drop 1 best_fit_nuis)
           else Inl AttributeError)"
    by (elim conjE)
  then have res: "constrained_bestfit difference_tf coupled_objective 1 () ?pdf [-3, 1, 3] () =
      Inr [x' ! 0, 1, x' ! 1]"
    unfolding one by (simp add: x')
  from T agree have "constrained_bestfit difference_tf coupled_objective 1 () ?pdf [-3, 1, 3] () =
      constrained_bestfit difference_tf coupled_masked 1 () ?pdf [-3, 1, 3] ()"
    by (elim conjE impE)
  with res have res': "constrained_bestfit difference_tf coupled_masked 1 () ?pdf [-3, 1, 3] () =
      Inr [x' ! 0, 1, x' ! 1]" by simp
  from one fit have loop: "newton_constrained 1000 (update difference_tf ?f) ([-3, 3], False) 0 =
      Inr ((x', True), 1)" by simp
  from one loop res res' b pars show ?thesis
    by (intro exI[of _ x'] conjI)
qed

text \<open>
  Claim C3 at a failing input. For the quartic objective started at \<open>[-3, 0]\<close> the
  first update is about \<open>[-1, 10\<^sup>-\<^sup>1\<^sup>0]\<close>: its largest component is tiny while the
  absolute value of its first component is far above the tolerance. The test
  \<^verbatim>\<open>np.abs(np.max(up)) < 1e-4\<close> takes the absolute value of the largest component, so
  the loop breaks after one iteration. The regulariser is added to every entry of the
  Hessian, not to its diagonal.
\<close>

theorem newton_breaks_on_largest_component:
  "\<exists>up best_fit.
     update quartic_tf (\<lambda>pars. quartic_objective pars () ()) [-3, 0] = Inr up \<and>
     tolerance \<le> \<bar>hd up\<bar> \<and>
     newton_unconstrained 1000 (update quartic_tf (\<lambda>pars. quartic_objective pars () ()))
       [-3, 0] 0 = Inr (best_fit, 1) \<and>
     unconstrained_bestfit quartic_tf quartic_objective () () [-3, 0] () = Inr best_fit \<and>
     regularised [[1, 0], [0, 1]] =
       [[1 + regulariser, regulariser], [regulariser, 1 + regulariser]]"
proof -
  let ?run = "update quartic_tf (\<lambda>pars. quartic_objective pars () ())"
  obtain up where up: "?run [-3, 0] = Inr up"
    and big: "tolerance \<le> \<bar>hd up\<bar>"
    and st: "\<exists>x'. newton_step [-3, 0] up = Inr (x', True)"
    by (simp add: update_def quartic_tf_def regularised_def regulariser_def matvec_def
        newton_step_def np_sub_def np_max_def tolerance_def)
  from st obtain x' where "newton_step [-3, 0] up = Inr (x', True)" ..
  from newton_unconstrained_break[where run = ?run and x = "[-3, 0]", OF up this, of 999 0]
  have loop: "newton_unconstrained 1000 ?run [-3, 0] 0 = Inr (x', 1)" by simp
  then have "unconstrained_bestfit quartic_tf quartic_objective () () [-3, 0] () = Inr x'"
    by (simp add: unconstrained_bestfit_def)
  moreover have "regularised [[1, 0], [0, 1]] =
       [[1 + regulariser, regulariser], [regulariser, 1 + regulariser]]"
    by (simp add: regularised_def)
  ultimately show ?thesis using up big loop by blast
qed

text \<open>
  Claim C8 at failing inputs. \<^verbatim>\<open>_make_cube\<close> fills the cube with not-a-number and
  sizes it by the largest number of bins, but the assignment \<^verbatim>\<open>cube[i,j,:] = s['data']\<close>
  writes a whole row: for the specification with a two-bin and a three-bin channel the
  configuration is built and the cube construction raises \<^verbatim>\<open>ValueError\<close>, and a
  sample with a single bin beside a two-bin sample has its value broadcast over both
  bins instead of being padded. (Channels with fewer samples are padded, see
  \<open>make_cube_entries\<close> and \<open>fewer_samples_padded\<close>, and a not-a-number slot adds
  nothing to a channel's sum, see \<open>nan_slot_contributes_nothing\<close>.)
\<close>

theorem cube_bins_not_padded:
  "Model tensorlib example_registry unequal_bins ''mu'' False = Inl ValueError \<and>
   (\<exists>cfg. from_spec example_registry unequal_bins ''mu'' False = Inr cfg) \<and>
   make_cube unequal_bins = Inl ValueError \<and>
   (\<exists>self. Model tensorlib example_registry single_bin_sample ''mu'' False = Inr self \<and>
      m_cube self = [[[Fin 5, Fin 5], [Fin 50, Fin 52]]])"
  by (simp add: Model_def example_defs unequal_bins_def single_bin_sample_def Let_def
      make_cube_def py_max_def full_def broadcast_row_def make_mod_index_def factor_mods_def
      delta_mods_def qualify_spec_def finalized_stats_def par_map_keys_def)

end

